theory Spec2Isabelle
  imports Main "HOL-Library.Word" "HOL-Library.AList"
begin

section \<open>The tic-tac-toe board (src/unnamed/part_000)\<close>

text \<open>
  Go's \<open>rune\<close> is \<open>int32\<close>; the program only stores runes and compares them for
  equality, so a 32-bit word is the whole of it. The zero rune is the empty cell.

  Go's \<open>int\<close> coordinates, lengths and counters are modelled as unbounded \<open>int\<close>.
  On a board that satisfies \<open>wf_board\<close> below, every arithmetic result of the
  program lies between \<open>-1\<close> and a slice length (a coordinate is stepped only from an
  in-bounds cell, the free-spot counter is decremented only when it is positive), so
  no 64-bit operation wraps and the unbounded model agrees with the machine one.
  The only product, \<open>boardWidth * boardHeight\<close>, is the number of cells the
  constructor has just allocated.
\<close>

type_synonym rune = "32 word"

datatype panic = WinLineLengthPanic | BoardSizePanic | IndexOutOfRange

record TicTacToeBoard =
  winLineLength :: int
  board :: "rune list list"
  freeSpots :: int
  winner :: rune
  tie :: bool

text \<open>Reading and writing a slice element: Go panics when the index is out of range.\<close>

definition index :: "'a list \<Rightarrow> int \<Rightarrow> panic + 'a" where
  "index xs i = (if 0 \<le> i \<and> i < int (length xs) then Inr (xs ! nat i) else Inl IndexOutOfRange)"

definition store :: "'a list \<Rightarrow> int \<Rightarrow> 'a \<Rightarrow> panic + 'a list" where
  "store xs i v = (if 0 \<le> i \<and> i < int (length xs) then Inr (xs[nat i := v]) else Inl IndexOutOfRange)"

text \<open>\<open>tb.board[y][x]\<close> as a read and as an assignment.\<close>

definition cell :: "rune list list \<Rightarrow> int \<Rightarrow> int \<Rightarrow> panic + rune" where
  "cell b y x = (case index b y of Inl e \<Rightarrow> Inl e | Inr row \<Rightarrow> index row x)"

definition setCell :: "rune list list \<Rightarrow> int \<Rightarrow> int \<Rightarrow> rune \<Rightarrow> panic + rune list list" where
  "setCell b y x v =
     (case index b y of
        Inl e \<Rightarrow> Inl e
      | Inr row \<Rightarrow> (case store row x v of Inl e \<Rightarrow> Inl e | Inr row' \<Rightarrow> store b y row'))"

text \<open>
  \<open>make([]T, n)\<close> yields \<open>n\<close> zero values. The constructor calls it only after it has
  checked that both dimensions are at least 1.
\<close>

definition make :: "int \<Rightarrow> 'a \<Rightarrow> 'a list" where
  "make n zero = replicate (nat n) zero"

text \<open>The loop \<open>for r := 0; r < boardHeight; r++ { board[r] = make([]rune, boardWidth) }\<close>.\<close>

function makeRows :: "int \<Rightarrow> int \<Rightarrow> int \<Rightarrow> rune list list \<Rightarrow> panic + rune list list" where
  "makeRows boardWidth boardHeight r b =
     (if r < boardHeight then
        (case store b r (make boardWidth 0) of
           Inl e \<Rightarrow> Inl e
         | Inr b' \<Rightarrow> makeRows boardWidth boardHeight (r + 1) b')
      else Inr b)"
  by pat_completeness auto
termination
  by (relation "measure (\<lambda>(w, h, r, b). nat (h - r))") auto

definition NewTicTacToeBoard :: "int \<Rightarrow> int \<Rightarrow> int \<Rightarrow> panic + TicTacToeBoard" where
  "NewTicTacToeBoard wll boardWidth boardHeight =
     (if wll = 0 then Inl WinLineLengthPanic
      else if boardWidth < 1 \<or> boardHeight < 1 then Inl BoardSizePanic
      else (case makeRows boardWidth boardHeight 0 (make boardHeight []) of
              Inl e \<Rightarrow> Inl e
            | Inr b \<Rightarrow> Inr \<lparr>winLineLength = wll, board = b,
                           freeSpots = boardWidth * boardHeight, winner = 0, tie = False\<rparr>))"

text \<open>
  \<open>InBounds\<close> evaluates \<open>x >= 0 && x < len(tb.board[0]) && y >= 0 && y < len(tb.board)\<close>
  from left to right: row 0 is read only when \<open>x >= 0\<close>.
\<close>

definition InBounds :: "TicTacToeBoard \<Rightarrow> int \<Rightarrow> int \<Rightarrow> panic + bool" where
  "InBounds tb x y =
     (if x \<ge> 0 then
        (case index (board tb) 0 of
           Inl e \<Rightarrow> Inl e
         | Inr row0 \<Rightarrow> Inr (x < int (length row0) \<and> y \<ge> 0 \<and> y < int (length (board tb))))
      else Inr False)"

definition GetMark :: "TicTacToeBoard \<Rightarrow> int \<Rightarrow> int \<Rightarrow> panic + rune" where
  "GetMark tb x y =
     (case InBounds tb x y of
        Inl e \<Rightarrow> Inl e
      | Inr False \<Rightarrow> Inr 0
      | Inr True \<Rightarrow> cell (board tb) y x)"

definition IsSpotEmpty :: "TicTacToeBoard \<Rightarrow> int \<Rightarrow> int \<Rightarrow> panic + bool" where
  "IsSpotEmpty tb x y = (case GetMark tb x y of Inl e \<Rightarrow> Inl e | Inr m \<Rightarrow> Inr (m = 0))"

definition IsGameOver :: "TicTacToeBoard \<Rightarrow> bool" where
  "IsGameOver tb \<longleftrightarrow> tie tb \<or> winner tb \<noteq> 0"

text \<open>
  The guard of \<open>PlaceMove\<close>:
  \<open>tb.IsGameOver() || !tb.InBounds(x, y) || tb.board[y][x] != 0 || tb.freeSpots == 0\<close>,
  with Go's short-circuit evaluation.
\<close>

definition rejects :: "TicTacToeBoard \<Rightarrow> int \<Rightarrow> int \<Rightarrow> panic + bool" where
  "rejects tb x y =
     (if IsGameOver tb then Inr True
      else (case InBounds tb x y of
              Inl e \<Rightarrow> Inl e
            | Inr False \<Rightarrow> Inr True
            | Inr True \<Rightarrow>
                (case cell (board tb) y x of
                   Inl e \<Rightarrow> Inl e
                 | Inr c \<Rightarrow> Inr (c \<noteq> 0 \<or> freeSpots tb = 0))))"

text \<open>
  The loop of the closure \<open>getLineLength\<close>, entered after the first step
  \<open>x += x_off; y += y_off\<close>. Nothing in the closure makes it stop for the offset
  \<open>(0, 0)\<close> on a cell that holds the player's mark, so the loop is a partial function:
  \<open>None\<close> is a run that never returns. (The two lemmas let the definition recurse
  under a case distinction on the result of a range check.)
\<close>

lemma case_sum_mono [partial_function_mono]:
  assumes "\<And>a. mono_option (\<lambda>f. F a f)" and "\<And>b. mono_option (\<lambda>f. G b f)"
  shows "mono_option (\<lambda>f. case s of Inl a \<Rightarrow> F a f | Inr b \<Rightarrow> G b f)"
  using assms by (cases s) simp_all

lemma case_bool_mono [partial_function_mono]:
  assumes "mono_option (\<lambda>f. F f)" and "mono_option (\<lambda>f. G f)"
  shows "mono_option (\<lambda>f. case c of True \<Rightarrow> F f | False \<Rightarrow> G f)"
  using assms by (cases c) simp_all

partial_function (option) lineLoop ::
  "TicTacToeBoard \<Rightarrow> rune \<Rightarrow> int \<Rightarrow> int \<Rightarrow> int \<Rightarrow> int \<Rightarrow> int \<Rightarrow> (panic + int) option" where
  "lineLoop tb player x_off y_off x y len =
     (case InBounds tb x y of
        Inl e \<Rightarrow> Some (Inl e)
      | Inr False \<Rightarrow> Some (Inr len)
      | Inr True \<Rightarrow>
          (case cell (board tb) y x of
             Inl e \<Rightarrow> Some (Inl e)
           | Inr c \<Rightarrow>
               if c = player then lineLoop tb player x_off y_off (x + x_off) (y + y_off) (len + 1)
               else Some (Inr len)))"

declare lineLoop.simps [code]

definition getLineLength ::
  "TicTacToeBoard \<Rightarrow> rune \<Rightarrow> int \<Rightarrow> int \<Rightarrow> int \<Rightarrow> int \<Rightarrow> (panic + int) option" where
  "getLineLength tb player x y x_off y_off = lineLoop tb player x_off y_off (x + x_off) (y + y_off) 0"

definition DirOffsets :: "(int \<times> int) list" where
  "DirOffsets = [(0, 1), (1, 1), (1, 0), (1, -1)]"

text \<open>
  The loop over \<open>DirOffsets\<close>; the \<open>break\<close> is the branch that returns without
  looking at the remaining directions.
\<close>

fun dirLoop ::
  "TicTacToeBoard \<Rightarrow> rune \<Rightarrow> int \<Rightarrow> int \<Rightarrow> (int \<times> int) list \<Rightarrow> (panic + TicTacToeBoard) option" where
  "dirLoop tb player x y [] = Some (Inr tb)"
| "dirLoop tb player x y (dir # dirs) =
     (case getLineLength tb player x y (fst dir) (snd dir) of
        None \<Rightarrow> None
      | Some (Inl e) \<Rightarrow> Some (Inl e)
      | Some (Inr dirLength) \<Rightarrow>
          (case getLineLength tb player x y (- fst dir) (- snd dir) of
             None \<Rightarrow> None
           | Some (Inl e) \<Rightarrow> Some (Inl e)
           | Some (Inr oppDirLength) \<Rightarrow>
               if 1 + dirLength + oppDirLength \<ge> winLineLength tb
               then Some (Inr (tb\<lparr>winner := player\<rparr>))
               else dirLoop tb player x y dirs))"

definition PlaceMove ::
  "TicTacToeBoard \<Rightarrow> int \<Rightarrow> int \<Rightarrow> rune \<Rightarrow> (panic + TicTacToeBoard) option" where
  "PlaceMove tb x y player =
     (case rejects tb x y of
        Inl e \<Rightarrow> Some (Inl e)
      | Inr True \<Rightarrow> Some (Inr tb)
      | Inr False \<Rightarrow>
          (case setCell (board tb) y x player of
             Inl e \<Rightarrow> Some (Inl e)
           | Inr b' \<Rightarrow>
               (case dirLoop (tb\<lparr>board := b', freeSpots := freeSpots tb - 1\<rparr>) player x y DirOffsets of
                  None \<Rightarrow> None
                | Some (Inl e) \<Rightarrow> Some (Inl e)
                | Some (Inr tb') \<Rightarrow>
                    Some (Inr (if winner tb' = 0 \<and> freeSpots tb' = 0 then tb'\<lparr>tie := True\<rparr> else tb')))))"

text \<open>
  A sequence of \<open>PlaceMove\<close> calls on one board, as the game loop of \<open>main\<close> issues
  them; a move is the coordinate pair and the rune of the player.
\<close>

fun PlaceMoves :: "TicTacToeBoard \<Rightarrow> (int \<times> int \<times> rune) list \<Rightarrow> (panic + TicTacToeBoard) option" where
  "PlaceMoves tb [] = Some (Inr tb)"
| "PlaceMoves tb ((x, y, player) # moves) =
     (case PlaceMove tb x y player of
        None \<Rightarrow> None
      | Some (Inl e) \<Rightarrow> Some (Inl e)
      | Some (Inr tb') \<Rightarrow> PlaceMoves tb' moves)"

section \<open>The duplicate-line counter (src/chapter-1/dup.go)\<close>

text \<open>
  The map \<open>counts\<close> of type \<open>map[string]int\<close> is an association list with
  distinct keys. Reading a key that is absent gives the zero value 0, and
  \<open>counts[line]++\<close> stores the value read plus one. Go leaves the iteration order of
  a map open; the list keeps the keys in the order of their first insertion, and no
  statement below depends on that order. The counters are unbounded integers: a 64-bit
  counter would wrap only after \<open>2^63\<close> equal lines.
\<close>

type_synonym counts = "(string \<times> int) list"

definition lookup :: "counts \<Rightarrow> string \<Rightarrow> int" where
  "lookup counts line = (case map_of counts line of None \<Rightarrow> 0 | Some n \<Rightarrow> n)"

definition increment :: "counts \<Rightarrow> string \<Rightarrow> counts" where
  "increment counts line = AList.update line (lookup counts line + 1) counts"

text \<open>
  The content of a file, cut at the newline bytes into raw lines (a raw line of a file
  with \<open>\r\n\<close> terminators still ends in the carriage return). \<open>delivered\<close> are the
  raw lines of the bytes that \<open>Read\<close> hands over before it reports the end of the file
  or an error; \<open>lost\<close> are the raw lines of the rest of the file, which \<open>Read\<close> never
  hands over because it failed first (none when the file is read to its end).
  \<open>os.Open\<close> returns either an open file and no error, or the nil file and an error.
  The file system is a function from names to one or the other.
\<close>

datatype fileContent = FileContent (delivered: "string list") (lost: "string list")

type_synonym osFile = "fileContent option"

type_synonym filesystem = "string \<Rightarrow> string + fileContent"

definition osOpen :: "filesystem \<Rightarrow> string \<Rightarrow> osFile \<times> string option" where
  "osOpen fs name = (case fs name of Inl err \<Rightarrow> (None, Some err) | Inr c \<Rightarrow> (Some c, None))"

text \<open>
  What a \<open>bufio.Scanner\<close> with the default split function \<open>ScanLines\<close> yields, one
  \<open>Text()\<close> per successful \<open>Scan()\<close>. (This is the behaviour of Go's standard
  library, which is not part of the repository.)
  \<^item> Over the nil file it yields nothing: the first \<open>Read\<close> on a nil \<open>*os.File\<close>
    returns \<open>os.ErrInvalid\<close>, so the first \<open>Scan()\<close> is false.
  \<^item> The token is the raw line without a trailing carriage return (\<open>dropCR\<close>).
  \<^item> The buffer grows to \<open>MaxScanTokenSize\<close>, 64 KiB, and no further. A raw line
    of 65535 bytes fits, with its newline or, as the last line, without one. A longer
    raw line fills the buffer before its end is seen: \<open>Scan()\<close> sets \<open>ErrTooLong\<close>
    and returns false, which ends the loop of \<open>countLines\<close>, so neither that line
    nor any line after it is yielded to it.
  \<^item> When \<open>Read\<close> reports an error the scanner yields what it has buffered, as at
    the end of a file, and stops: the lines that were not delivered are not yielded.
  \<open>countLines\<close> calls \<open>input.Err()\<close> once, before the loop, and drops the result; it
  does not look at the error after the loop.
\<close>

definition maxScanTokenSize :: int where
  "maxScanTokenSize = 64 * 1024"

definition dropCR :: "string \<Rightarrow> string" where
  "dropCR data = (if data \<noteq> [] \<and> last data = CHR 0x0D then butlast data else data)"

definition scan :: "osFile \<Rightarrow> string list" where
  "scan f =
     (case f of
        None \<Rightarrow> []
      | Some c \<Rightarrow> map dropCR (takeWhile (\<lambda>data. int (length data) < maxScanTokenSize) (delivered c)))"

text \<open>
  \<open>countLines\<close>: the loop \<open>for input.Scan() { counts[input.Text()]++ }\<close>.
\<close>

fun countLoop :: "string list \<Rightarrow> counts \<Rightarrow> counts" where
  "countLoop [] counts = counts"
| "countLoop (line # rest) counts = countLoop rest (increment counts line)"

definition countLines :: "osFile \<Rightarrow> counts \<Rightarrow> counts" where
  "countLines f counts = countLoop (scan f) counts"

text \<open>
  The loop over the named files in \<open>main\<close>. After a failed \<open>os.Open\<close> the error is
  written to standard error and the body goes on (there is no \<open>continue\<close>):
  \<open>countLines\<close> is called with the nil file, and \<open>f.Close()\<close> on it only returns an
  error.
\<close>

fun fileLoop :: "filesystem \<Rightarrow> string list \<Rightarrow> counts \<Rightarrow> string list \<Rightarrow> counts \<times> string list" where
  "fileLoop fs [] counts stderr = (counts, stderr)"
| "fileLoop fs (arg # files) counts stderr =
     (case osOpen fs arg of
        (f, err) \<Rightarrow>
          fileLoop fs files (countLines f counts)
            (case err of None \<Rightarrow> stderr | Some e \<Rightarrow> stderr @ [''dup: '' @ e @ [CHR 0x0A]]))"

text \<open>
  The final loop prints one record \<open>"%d\t%s\n"\<close> for every key whose count exceeds 1;
  a record is the pair of the count and the line.
\<close>

definition printDups :: "counts \<Rightarrow> (int \<times> string) list" where
  "printDups counts = map (\<lambda>(line, n). (n, line)) (filter (\<lambda>(line, n). n > 1) counts)"

text \<open>
  \<open>main\<close>: standard input when no file is named, the named files otherwise. The
  result is what is written to standard output and to standard error.
\<close>

definition dup :: "filesystem \<Rightarrow> fileContent \<Rightarrow> string list \<Rightarrow> (int \<times> string) list \<times> string list" where
  "dup fs stdin files =
     (case (if files = [] then (countLines (Some stdin) [], []) else fileLoop fs files [] []) of
        (counts, stderr) \<Rightarrow> (printDups counts, stderr))"

section \<open>Vocabulary of the properties\<close>

subsection \<open>Shape of a board, cells and runs\<close>

text \<open>
  A board has at least one row, and every row is as long as row 0: that is what the
  constructor builds and what \<open>PlaceMove\<close> keeps. The free-spot counter of such a
  board is not negative.
\<close>

definition height :: "rune list list \<Rightarrow> int" where
  "height b = int (length b)"

definition width :: "rune list list \<Rightarrow> int" where
  "width b = int (length (b ! 0))"

definition wf_grid :: "rune list list \<Rightarrow> bool" where
  "wf_grid b \<longleftrightarrow> b \<noteq> [] \<and> (\<forall>row \<in> set b. length row = length (b ! 0))"

definition wf_board :: "TicTacToeBoard \<Rightarrow> bool" where
  "wf_board tb \<longleftrightarrow> wf_grid (board tb) \<and> 0 \<le> freeSpots tb"

definition inside :: "rune list list \<Rightarrow> int \<Rightarrow> int \<Rightarrow> bool" where
  "inside b x y \<longleftrightarrow> 0 \<le> x \<and> x < width b \<and> 0 \<le> y \<and> y < height b"

definition mark :: "rune list list \<Rightarrow> int \<Rightarrow> int \<Rightarrow> rune" where
  "mark b x y = b ! nat y ! nat x"

definition holds :: "rune list list \<Rightarrow> rune \<Rightarrow> int \<Rightarrow> int \<Rightarrow> bool" where
  "holds b p x y \<longleftrightarrow> inside b x y \<and> mark b x y = p"

text \<open>
  The number of consecutive cells that hold the mark \<open>p\<close> strictly in the direction
  \<open>(dx, dy)\<close> from \<open>(x, y)\<close>: \<open>run_count\<close> says that the next \<open>n\<close> cells hold it and
  the one after them does not (it is outside the grid or holds something else), and
  \<open>run_length\<close> counts them, looking at most as far as the grid is long and wide
  together. For every direction other than \<open>(0, 0)\<close> the two agree
  (\<open>run_length_run_count\<close>, \<open>run_count_unique\<close> below). \<open>total_run\<close> is the run
  through \<open>(x, y)\<close> along \<open>d\<close>: the cell itself and both sides.
\<close>

definition run_count :: "rune list list \<Rightarrow> rune \<Rightarrow> int \<Rightarrow> int \<Rightarrow> int \<Rightarrow> int \<Rightarrow> nat \<Rightarrow> bool" where
  "run_count b p x y dx dy n \<longleftrightarrow>
     (\<forall>i \<in> {1..n}. holds b p (x + int i * dx) (y + int i * dy)) \<and>
     \<not> holds b p (x + int (Suc n) * dx) (y + int (Suc n) * dy)"

definition run_length :: "rune list list \<Rightarrow> rune \<Rightarrow> int \<Rightarrow> int \<Rightarrow> int \<Rightarrow> int \<Rightarrow> nat" where
  "run_length b p x y dx dy =
     length (takeWhile (\<lambda>i. holds b p (x + int i * dx) (y + int i * dy))
               [1..<Suc (length b + length (b ! 0))])"

definition total_run :: "rune list list \<Rightarrow> rune \<Rightarrow> int \<Rightarrow> int \<Rightarrow> int \<times> int \<Rightarrow> int" where
  "total_run b p x y d =
     1 + int (run_length b p x y (fst d) (snd d)) + int (run_length b p x y (- fst d) (- snd d))"

text \<open>
  A direction qualifies when its total run reaches the win-line length.
\<close>

definition qualifies :: "TicTacToeBoard \<Rightarrow> rune \<Rightarrow> int \<Rightarrow> int \<Rightarrow> int \<times> int \<Rightarrow> bool" where
  "qualifies tb p x y d \<longleftrightarrow> winLineLength tb \<le> total_run (board tb) p x y d"

text \<open>
  The free cells of a grid: the cells that hold the empty rune.
\<close>

definition empty_cells :: "rune list list \<Rightarrow> nat" where
  "empty_cells b = count_list (concat b) 0"

text \<open>
  The guard of \<open>PlaceMove\<close> read on a well-formed board (\<open>rejects_wf\<close> below), the
  board after the mark is written and the counter decremented, and the board that an
  accepted placement returns.
\<close>

definition accepted :: "TicTacToeBoard \<Rightarrow> int \<Rightarrow> int \<Rightarrow> bool" where
  "accepted tb x y \<longleftrightarrow>
     \<not> IsGameOver tb \<and> inside (board tb) x y \<and> mark (board tb) x y = 0 \<and> freeSpots tb \<noteq> 0"

definition placed :: "TicTacToeBoard \<Rightarrow> int \<Rightarrow> int \<Rightarrow> rune \<Rightarrow> TicTacToeBoard" where
  "placed tb x y p =
     tb\<lparr>board := (board tb)[nat y := (board tb ! nat y)[nat x := p]], freeSpots := freeSpots tb - 1\<rparr>"

definition outcome :: "TicTacToeBoard \<Rightarrow> int \<Rightarrow> int \<Rightarrow> rune \<Rightarrow> TicTacToeBoard" where
  "outcome tb x y p =
     (let tb1 = placed tb x y p;
          tb2 = (if \<exists>d \<in> set DirOffsets. qualifies tb1 p x y d then tb1\<lparr>winner := p\<rparr> else tb1)
      in if winner tb2 = 0 \<and> freeSpots tb2 = 0 then tb2\<lparr>tie := True\<rparr> else tb2)"

subsection \<open>Input of the duplicate-line counter\<close>

text \<open>
  Whether \<open>os.Open\<close> succeeds on a name.
\<close>

definition opens :: "filesystem \<Rightarrow> string \<Rightarrow> bool" where
  "opens fs name = (case fs name of Inl err \<Rightarrow> False | Inr lines \<Rightarrow> True)"

text \<open>
  The text of a raw line is the line without the carriage return of a \<open>\r\n\<close>
  terminator. The lines of a file that count are the texts of its delivered lines
  before the first one that is longer than 65535 bytes, all of them when there is
  none. The lines that count in a run of the program are those of standard input when
  no file is named, and otherwise those of the named files that open, in order.
\<close>

definition line_text :: "string \<Rightarrow> string" where
  "line_text l = (case rev l of [] \<Rightarrow> [] | c # r \<Rightarrow> if c = CHR 0x0D then rev r else l)"

definition counted_lines :: "fileContent \<Rightarrow> string list" where
  "counted_lines c = map line_text (takeWhile (\<lambda>l. int (length l) \<le> 65535) (delivered c))"

definition input_lines :: "filesystem \<Rightarrow> fileContent \<Rightarrow> string list \<Rightarrow> string list" where
  "input_lines fs stdin files =
     (if files = [] then counted_lines stdin
      else concat (map (\<lambda>name. case fs name of Inl err \<Rightarrow> [] | Inr c \<Rightarrow> counted_lines c) files))"

subsection \<open>Concrete inputs\<close>

text \<open>
  Two players, \<open>'X'\<close> and \<open>'O'\<close> (the default player list of the command line), a
  3 by 3 game in which X has two marks in the bottom row.
\<close>

definition playerX :: rune where "playerX = 88"

definition playerO :: rune where "playerO = 79"

definition midgame :: TicTacToeBoard where
  "midgame = \<lparr>winLineLength = 3, board = [[playerX, playerX, 0], [playerO, playerO, 0], [0, 0, 0]],
              freeSpots = 5, winner = 0, tie = False\<rparr>"

text \<open>The 3 by 3 game after X has completed the bottom row.\<close>

definition won :: TicTacToeBoard where
  "won = \<lparr>winLineLength = 3, board = [[playerX, playerX, playerX], [playerO, playerO, 0], [0, 0, 0]],
          freeSpots = 4, winner = playerX, tie = False\<rparr>"

text \<open>
  A 2 by 1 board with one free cell left, and the 1 by 1 board with win-line length 1.
\<close>

definition lastcell :: TicTacToeBoard where
  "lastcell = \<lparr>winLineLength = 3, board = [[playerX, 0]], freeSpots = 1, winner = 0, tie = False\<rparr>"

definition single :: TicTacToeBoard where
  "single = \<lparr>winLineLength = 1, board = [[0]], freeSpots = 1, winner = 0, tie = False\<rparr>"

text \<open>
  A 3 by 3 game with one free cell, (2, 0), where X is to move and completes no line of
  three (the bottom row then reads O, X, X), and a 1 by 2 board (one column) with
  win-line length 2 on which X fills the last cell and wins with it.
\<close>

definition drawgame :: TicTacToeBoard where
  "drawgame = \<lparr>winLineLength = 3,
                board = [[playerO, playerX, 0], [playerX, playerO, playerO], [playerX, playerO, playerX]],
                freeSpots = 1, winner = 0, tie = False\<rparr>"

definition lastwin :: TicTacToeBoard where
  "lastwin = \<lparr>winLineLength = 2, board = [[playerX], [0]], freeSpots = 1, winner = 0, tie = False\<rparr>"

text \<open>
  A small file system: two files that open and are read to their end, every other name
  fails. An empty standard input.
\<close>

definition disk :: filesystem where
  "disk name =
     (if name = ''a.txt'' then Inr (FileContent [''x'', ''y'', ''x''] [])
      else if name = ''b.txt'' then Inr (FileContent [''y'', ''z''] [])
      else Inl (''open '' @ name @ '': no such file or directory''))"

definition noInput :: fileContent where
  "noInput = FileContent [] []"

text \<open>
  An input with a line of 70000 bytes between occurrences of the line x; an input
  whose reading fails after the second line; an input with both kinds of line
  terminator.
\<close>

definition longline :: string where
  "longline = replicate 70000 (CHR ''a'')"

definition longInput :: fileContent where
  "longInput = FileContent [''x'', longline, ''x'', ''x''] []"

definition brokenInput :: fileContent where
  "brokenInput = FileContent [''x'', ''y''] [''x'', ''x'']"

definition crlfInput :: fileContent where
  "crlfInput = FileContent [''x'' @ [CHR 0x0D], ''x'', ''y''] []"

section \<open>Lemmas about the board\<close>

subsection \<open>Range checks on a well-formed board\<close>

lemma wf_grid_height: "wf_grid b \<Longrightarrow> 0 < height b"
  by (simp add: wf_grid_def height_def)

lemma InBounds_wf: "wf_grid (board tb) \<Longrightarrow> InBounds tb x y = Inr (inside (board tb) x y)"
  using wf_grid_height [of "board tb"]
  by (simp add: InBounds_def index_def inside_def width_def height_def)

lemma row_length:
  assumes "wf_grid b" and "0 \<le> y" and "y < height b"
  shows "int (length (b ! nat y)) = width b"
proof -
  from assms have "b ! nat y \<in> set b"
    by (simp add: height_def)
  with assms(1) have "length (b ! nat y) = length (b ! 0)"
    unfolding wf_grid_def by blast
  then show ?thesis by (simp add: width_def)
qed

lemma cell_wf:
  assumes "wf_grid b" and "inside b x y"
  shows "cell b y x = Inr (mark b x y)"
proof -
  from assms(2) have y: "0 \<le> y" "y < height b" and x: "0 \<le> x" "x < width b"
    by (simp_all add: inside_def)
  from row_length [OF assms(1) y] x have "x < int (length (b ! nat y))" by simp
  with x y show ?thesis
    by (simp add: cell_def index_def mark_def height_def)
qed

lemma setCell_wf:
  assumes "wf_grid b" and "inside b x y"
  shows "setCell b y x v = Inr (b[nat y := (b ! nat y)[nat x := v]])"
proof -
  from assms(2) have y: "0 \<le> y" "y < height b" and x: "0 \<le> x" "x < width b"
    by (simp_all add: inside_def)
  from row_length [OF assms(1) y] x have "x < int (length (b ! nat y))" by simp
  with x y show ?thesis
    by (simp add: setCell_def index_def store_def height_def)
qed

lemma wf_grid_update:
  assumes wf: "wf_grid b" and ins: "inside b x y"
  shows "wf_grid (b[nat y := (b ! nat y)[nat x := v]])"
proof -
  let ?b = "b[nat y := (b ! nat y)[nat x := v]]"
  from ins have y: "0 \<le> y" "y < height b" by (simp_all add: inside_def)
  have len: "length (r[nat x := v]) = length r" for r :: "rune list" by simp
  have rows: "length row = length (b ! 0)" if "row \<in> set b" for row
    using wf that unfolding wf_grid_def by blast
  have ne: "b \<noteq> []" using wf unfolding wf_grid_def by blast
  have r0: "length (?b ! 0) = length (b ! 0)"
  proof (cases "nat y = 0")
    case True
    with ne show ?thesis by (cases b) simp_all
  next
    case False
    then show ?thesis by simp
  qed
  have "length row = length (?b ! 0)" if "row \<in> set ?b" for row
  proof -
    from that have "row \<in> insert ((b ! nat y)[nat x := v]) (set b)"
      using set_update_subset_insert by fastforce
    then consider "row = (b ! nat y)[nat x := v]" | "row \<in> set b" by blast
    then have "length row = length (b ! 0)"
    proof cases
      case 1
      from y have "b ! nat y \<in> set b" by (simp add: height_def)
      from rows [OF this] 1 show ?thesis by simp
    next
      case 2
      then show ?thesis by (rule rows)
    qed
    with r0 show ?thesis by simp
  qed
  moreover from ne have "?b \<noteq> []" by simp
  ultimately show ?thesis unfolding wf_grid_def by blast
qed

lemma rejects_wf: "wf_grid (board tb) \<Longrightarrow> rejects tb x y = Inr (\<not> accepted tb x y)"
  by (cases "inside (board tb) x y") (auto simp: rejects_def accepted_def InBounds_wf cell_wf)

subsection \<open>The scan returns the run length\<close>

lemma lineLoop_run:
  assumes wf: "wf_grid (board tb)" and nz: "dx \<noteq> 0 \<or> dy \<noteq> 0"
  shows "\<exists>n. lineLoop tb p dx dy x y len = Some (Inr (len + int n)) \<and>
             (\<forall>i<n. holds (board tb) p (x + int i * dx) (y + int i * dy)) \<and>
             \<not> holds (board tb) p (x + int n * dx) (y + int n * dy)"
proof (induction "if dx > 0 then nat (width (board tb) - x) else if dx < 0 then nat (x + 1)
                  else if dy > 0 then nat (height (board tb) - y) else nat (y + 1)"
       arbitrary: x y len rule: less_induct)
  case less
  show ?case
  proof (cases "holds (board tb) p x y")
    case False
    have "lineLoop tb p dx dy x y len = Some (Inr len)"
    proof (cases "inside (board tb) x y")
      case True
      with False have "mark (board tb) x y \<noteq> p" by (simp add: holds_def)
      with True wf show ?thesis by (subst lineLoop.simps) (simp add: InBounds_wf cell_wf)
    next
      case False
      with wf show ?thesis by (subst lineLoop.simps) (simp add: InBounds_wf)
    qed
    with False show ?thesis by (intro exI [of _ 0]) simp
  next
    case True
    then have ins: "inside (board tb) x y" and mk: "mark (board tb) x y = p" by (simp_all add: holds_def)
    have step: "lineLoop tb p dx dy x y len = lineLoop tb p dx dy (x + dx) (y + dy) (len + 1)"
      using wf ins mk by (subst lineLoop.simps) (simp add: InBounds_wf cell_wf)
    have "(if dx > 0 then nat (width (board tb) - (x + dx)) else if dx < 0 then nat (x + dx + 1)
           else if dy > 0 then nat (height (board tb) - (y + dy)) else nat (y + dy + 1))
        < (if dx > 0 then nat (width (board tb) - x) else if dx < 0 then nat (x + 1)
           else if dy > 0 then nat (height (board tb) - y) else nat (y + 1))"
      using ins nz by (auto simp: inside_def)
    from less [OF this, of "len + 1"] obtain n where
      r: "lineLoop tb p dx dy (x + dx) (y + dy) (len + 1) = Some (Inr (len + 1 + int n))" and
      a: "\<forall>i<n. holds (board tb) p (x + dx + int i * dx) (y + dy + int i * dy)" and
      s: "\<not> holds (board tb) p (x + dx + int n * dx) (y + dy + int n * dy)"
      by blast
    have "\<forall>i<Suc n. holds (board tb) p (x + int i * dx) (y + int i * dy)"
    proof (intro allI impI)
      fix i assume "i < Suc n"
      show "holds (board tb) p (x + int i * dx) (y + int i * dy)"
      proof (cases i)
        case 0
        with True show ?thesis by simp
      next
        case (Suc j)
        with \<open>i < Suc n\<close> a have "holds (board tb) p (x + dx + int j * dx) (y + dy + int j * dy)" by simp
        with Suc show ?thesis by (simp add: algebra_simps)
      qed
    qed
    moreover from s have "\<not> holds (board tb) p (x + int (Suc n) * dx) (y + int (Suc n) * dy)"
      by (simp add: algebra_simps)
    ultimately show ?thesis using step r by (intro exI [of _ "Suc n"]) simp
  qed
qed

lemma getLineLength_run:
  assumes "wf_grid (board tb)" and "dx \<noteq> 0 \<or> dy \<noteq> 0"
  shows "\<exists>n. getLineLength tb p x y dx dy = Some (Inr (int n)) \<and> run_count (board tb) p x y dx dy n"
proof -
  from lineLoop_run [OF assms, of p "x + dx" "y + dy" 0] obtain n where
    r: "lineLoop tb p dx dy (x + dx) (y + dy) 0 = Some (Inr (int n))" and
    a: "\<forall>i<n. holds (board tb) p (x + dx + int i * dx) (y + dy + int i * dy)" and
    s: "\<not> holds (board tb) p (x + dx + int n * dx) (y + dy + int n * dy)"
    by auto
  have "\<forall>i \<in> {1..n}. holds (board tb) p (x + int i * dx) (y + int i * dy)"
  proof
    fix i assume "i \<in> {1..n}"
    then obtain j where j: "i = Suc j" "j < n" by (cases i) auto
    with a have "holds (board tb) p (x + dx + int j * dx) (y + dy + int j * dy)" by simp
    with j show "holds (board tb) p (x + int i * dx) (y + int i * dy)" by (simp add: algebra_simps)
  qed
  moreover from s have "\<not> holds (board tb) p (x + int (Suc n) * dx) (y + int (Suc n) * dy)"
    by (simp add: algebra_simps)
  ultimately show ?thesis using r by (auto simp: getLineLength_def run_count_def)
qed

lemma run_count_unique:
  assumes "run_count b p x y dx dy n" and "run_count b p x y dx dy m"
  shows "n = m"
proof (rule ccontr)
  assume "n \<noteq> m"
  then consider "n < m" | "m < n" by linarith
  then show False
  proof cases
    case 1
    then have "Suc n \<in> {1..m}" by simp
    with assms show False unfolding run_count_def by blast
  next
    case 2
    then have "Suc m \<in> {1..n}" by simp
    with assms show False unfolding run_count_def by blast
  qed
qed

lemma run_count_bound:
  assumes wf: "wf_grid b" and nz: "dx \<noteq> 0 \<or> dy \<noteq> 0" and rc: "run_count b p x y dx dy n"
  shows "n < length b + length (b ! 0)"
proof (cases "n = 0")
  case True
  with wf_grid_height [OF wf] show ?thesis by (simp add: height_def)
next
  case False
  then have "1 \<in> {1..n}" and "n \<in> {1..n}" by simp_all
  with rc have h1: "holds b p (x + int 1 * dx) (y + int 1 * dy)"
    and hn: "holds b p (x + int n * dx) (y + int n * dy)"
    unfolding run_count_def by blast+
  from h1 have i1: "0 \<le> x + dx" "x + dx < width b" "0 \<le> y + dy" "y + dy < height b"
    by (simp_all add: holds_def inside_def)
  from hn have i2: "0 \<le> x + int n * dx" "x + int n * dx < width b"
    "0 \<le> y + int n * dy" "y + int n * dy < height b"
    by (simp_all add: holds_def inside_def)
  have step: "int n - 1 < k" if d: "d \<noteq> 0" and a: "0 \<le> z + d" "z + d < k"
    and c: "0 \<le> z + int n * d" "z + int n * d < k" for d z k :: int
  proof -
    define t where "t = (int n - 1) * d"
    have e: "z + int n * d = z + d + t" by (simp add: t_def algebra_simps)
    from c have c': "0 \<le> z + d + t" "z + d + t < k" unfolding e by simp_all
    have nn: "0 \<le> int n - 1" using False by simp
    show ?thesis
    proof (cases "d > 0")
      case True
      then have "int n - 1 \<le> t"
        unfolding t_def using mult_left_mono [of 1 d "int n - 1"] nn by simp
      with a c' show ?thesis by linarith
    next
      case F: False
      with d have "d \<le> - 1" by simp
      then have "t \<le> - (int n - 1)"
        unfolding t_def using mult_left_mono [of d "- 1" "int n - 1"] nn by simp
      with a c' show ?thesis by linarith
    qed
  qed
  have pos: "0 < length b" using wf_grid_height [OF wf] by (simp add: height_def)
  from nz show ?thesis
  proof
    assume "dx \<noteq> 0"
    from step [OF this i1(1,2) i2(1,2)] have "int n - 1 < int (length (b ! 0))"
      by (simp add: width_def)
    with pos show ?thesis by linarith
  next
    assume "dy \<noteq> 0"
    from step [OF this i1(3,4) i2(3,4)] have "int n - 1 < int (length b)"
      by (simp add: height_def)
    moreover from i1(1,2) have "0 < int (length (b ! 0))"
      unfolding width_def by linarith
    ultimately show ?thesis by linarith
  qed
qed

lemma takeWhile_upt_stop:
  assumes "\<And>i. a \<le> i \<Longrightarrow> i < k \<Longrightarrow> P i" and "\<not> P k" and "a \<le> k" and "k < M"
  shows "takeWhile P [a..<M] = [a..<k]"
proof -
  from \<open>a \<le> k\<close> \<open>k < M\<close> have "[a..<M] = [a..<k] @ [k..<M]"
    using upt_add_eq_append [of a k "M - k"] by simp
  also from \<open>k < M\<close> have "[k..<M] = k # [Suc k..<M]"
    by (rule upt_conv_Cons)
  finally have "[a..<M] = [a..<k] @ k # [Suc k..<M]" .
  moreover have "takeWhile P ([a..<k] @ k # [Suc k..<M]) = [a..<k] @ takeWhile P (k # [Suc k..<M])"
    by (rule takeWhile_append2) (use assms(1) in auto)
  moreover have "takeWhile P (k # [Suc k..<M]) = []"
    using assms(2) by simp
  ultimately show ?thesis by simp
qed

lemma takeWhile_upt_prefix:
  assumes "\<forall>i \<in> {1..n}. P i" and "\<not> P (Suc n)" and "n < m"
  shows "length (takeWhile P [1..<Suc m]) = n"
proof -
  have "takeWhile P [1..<Suc m] = [1..<Suc n]"
  proof (rule takeWhile_upt_stop)
    fix i assume "1 \<le> i" and "i < Suc n"
    then have "i \<in> {1..n}" by simp
    with assms(1) show "P i" by blast
  qed (use assms in simp_all)
  then show ?thesis by simp
qed

lemma run_count_length:
  assumes "wf_grid b" and "dx \<noteq> 0 \<or> dy \<noteq> 0" and "run_count b p x y dx dy n"
  shows "run_length b p x y dx dy = n"
  unfolding run_length_def
  using assms(3) run_count_bound [OF assms]
  by (intro takeWhile_upt_prefix) (simp_all add: run_count_def)

lemma getLineLength_wf:
  assumes "wf_grid (board tb)" and "dx \<noteq> 0 \<or> dy \<noteq> 0"
  shows "getLineLength tb p x y dx dy = Some (Inr (int (run_length (board tb) p x y dx dy)))"
proof -
  from getLineLength_run [OF assms] obtain n where
    "getLineLength tb p x y dx dy = Some (Inr (int n))" and "run_count (board tb) p x y dx dy n"
    by blast
  with run_count_length [OF assms] show ?thesis by simp
qed

lemma run_length_run_count:
  assumes "wf_grid b" and "dx \<noteq> 0 \<or> dy \<noteq> 0"
  shows "run_count b p x y dx dy (run_length b p x y dx dy)"
proof -
  define tb where "tb = \<lparr>winLineLength = 0, board = b, freeSpots = 0, winner = 0, tie = False\<rparr>"
  then have "wf_grid (board tb)" using assms(1) by simp
  from getLineLength_run [OF this assms(2), of p x y] obtain n where
    "run_count (board tb) p x y dx dy n" by blast
  then have "run_count b p x y dx dy n" by (simp add: tb_def)
  with run_count_length [OF assms this] show ?thesis by simp
qed

subsection \<open>The loop over the directions\<close>

lemma set_DirOffsets: "set DirOffsets = {(0, 1), (1, 1), (1, 0), (1, - 1)}"
  by (auto simp: DirOffsets_def)

lemma DirOffsets_nonzero: "d \<in> set DirOffsets \<Longrightarrow> fst d \<noteq> 0 \<or> snd d \<noteq> 0"
  by (auto simp: DirOffsets_def)

lemma dirLoop_step:
  assumes wf: "wf_grid (board tb)" and nz: "fst d \<noteq> 0 \<or> snd d \<noteq> 0"
  shows "dirLoop tb p x y (d # dirs) =
           (if qualifies tb p x y d then Some (Inr (tb\<lparr>winner := p\<rparr>)) else dirLoop tb p x y dirs)"
proof -
  from nz have nz': "- fst d \<noteq> 0 \<or> - snd d \<noteq> 0" by simp
  show ?thesis
    by (simp add: getLineLength_wf [OF wf nz] getLineLength_wf [OF wf nz'] qualifies_def total_run_def)
qed

lemma dirLoop_wf:
  assumes wf: "wf_grid (board tb)" and nz: "\<forall>d \<in> set dirs. fst d \<noteq> 0 \<or> snd d \<noteq> 0"
  shows "dirLoop tb p x y dirs =
           Some (Inr (if \<exists>d \<in> set dirs. qualifies tb p x y d then tb\<lparr>winner := p\<rparr> else tb))"
  using nz
proof (induction dirs)
  case Nil
  show ?case by simp
next
  case (Cons d dirs)
  then have "fst d \<noteq> 0 \<or> snd d \<noteq> 0" by simp
  from dirLoop_step [OF wf this] Cons show ?case by simp
qed

lemma dirLoop_first:
  assumes wf: "wf_grid (board tb)"
    and pre: "\<forall>e \<in> set pre. (fst e \<noteq> 0 \<or> snd e \<noteq> 0) \<and> \<not> qualifies tb p x y e"
    and d: "fst d \<noteq> 0 \<or> snd d \<noteq> 0" "qualifies tb p x y d"
  shows "dirLoop tb p x y (pre @ d # rest) = Some (Inr (tb\<lparr>winner := p\<rparr>))"
  using pre
proof (induction pre)
  case Nil
  from dirLoop_step [OF wf d(1)] d(2) show ?case by simp
next
  case (Cons e pre)
  then have "fst e \<noteq> 0 \<or> snd e \<noteq> 0" and "\<not> qualifies tb p x y e" by simp_all
  with dirLoop_step [OF wf this(1), of p x y "pre @ d # rest"] Cons show ?case by simp
qed

subsection \<open>What PlaceMove returns\<close>

lemma PlaceMove_rejected:
  assumes "wf_grid (board tb)" and "\<not> accepted tb x y"
  shows "PlaceMove tb x y p = Some (Inr tb)"
  using assms by (simp add: PlaceMove_def rejects_wf)

lemma PlaceMove_gameover: "IsGameOver tb \<Longrightarrow> PlaceMove tb x y p = Some (Inr tb)"
  by (simp add: PlaceMove_def rejects_def)

lemma PlaceMove_accepted:
  assumes wf: "wf_grid (board tb)" and acc: "accepted tb x y"
  shows "PlaceMove tb x y p = Some (Inr (outcome tb x y p))"
proof -
  from acc have ins: "inside (board tb) x y" by (simp add: accepted_def)
  have wf1: "wf_grid (board (placed tb x y p))"
    using wf_grid_update [OF wf ins] by (simp add: placed_def)
  have nz: "\<forall>d \<in> set DirOffsets. fst d \<noteq> 0 \<or> snd d \<noteq> 0"
    using DirOffsets_nonzero by blast
  have pl: "tb\<lparr>board := (board tb)[nat y := (board tb ! nat y)[nat x := p]],
              freeSpots := freeSpots tb - 1\<rparr> = placed tb x y p"
    by (simp add: placed_def)
  show ?thesis
    using acc
    by (simp add: PlaceMove_def rejects_wf [OF wf] setCell_wf [OF wf ins] pl
        dirLoop_wf [OF wf1 nz] outcome_def Let_def)
qed

lemma outcome_fields:
  "winLineLength (outcome tb x y p) = winLineLength tb"
  "board (outcome tb x y p) = (board tb)[nat y := (board tb ! nat y)[nat x := p]]"
  "freeSpots (outcome tb x y p) = freeSpots tb - 1"
  by (simp_all add: outcome_def placed_def Let_def)

lemma qualifies_cong:
  "winLineLength a = winLineLength b \<Longrightarrow> board a = board b \<Longrightarrow> qualifies a p x y d = qualifies b p x y d"
  by (simp add: qualifies_def)

lemma outcome_winner:
  assumes "winner tb = 0"
  shows "winner (outcome tb x y p) =
           (if \<exists>d \<in> set DirOffsets. qualifies (outcome tb x y p) p x y d then p else 0)"
proof -
  have "qualifies (outcome tb x y p) p x y d = qualifies (placed tb x y p) p x y d" for d
    by (rule qualifies_cong) (simp_all add: outcome_fields placed_def)
  then show ?thesis using assms by (simp add: outcome_def Let_def placed_def)
qed

lemma outcome_tie:
  assumes "\<not> tie tb"
  shows "tie (outcome tb x y p) \<longleftrightarrow> winner (outcome tb x y p) = 0 \<and> freeSpots tb = 1"
  using assms by (auto simp: outcome_def Let_def placed_def)

subsection \<open>The constructor and the invariant\<close>

lemma makeRows_eq:
  assumes "0 \<le> r" and "r \<le> h" and "length b = nat h"
  shows "makeRows w h r b = Inr (take (nat r) b @ replicate (nat (h - r)) (make w 0))"
  using assms
proof (induction w h r b rule: makeRows.induct)
  case (1 w h r b)
  show ?case
  proof (cases "r < h")
    case False
    with "1.prems" have "r = h" by simp
    with "1.prems" show ?thesis by simp
  next
    case True
    let ?row = "make w (0 :: rune)"
    let ?b = "b[nat r := ?row]"
    from True "1.prems" have lt: "nat r < length b" by simp
    from True "1.prems" have st: "store b r ?row = Inr ?b" by (simp add: store_def)
    have "makeRows w h (r + 1) ?b = Inr (take (nat (r + 1)) ?b @ replicate (nat (h - (r + 1))) ?row)"
      using True "1.prems" by (intro "1.IH" [OF True st]) simp_all
    moreover have "nat (r + 1) = Suc (nat r)" using "1.prems" by simp
    moreover have "take (Suc (nat r)) ?b = take (nat r) b @ [?row]"
      using lt by (simp add: take_Suc_conv_app_nth)
    moreover have "nat (h - r) = Suc (nat (h - (r + 1)))" using True by simp
    ultimately have "makeRows w h (r + 1) ?b = Inr (take (nat r) b @ replicate (nat (h - r)) ?row)"
      by (simp add: replicate_app_Cons_same)
    with True st show ?thesis by (subst makeRows.simps) simp
  qed
qed

lemma NewTicTacToeBoard_result:
  "NewTicTacToeBoard wll w h =
     (if wll = 0 then Inl WinLineLengthPanic
      else if w < 1 \<or> h < 1 then Inl BoardSizePanic
      else Inr \<lparr>winLineLength = wll, board = replicate (nat h) (replicate (nat w) 0),
                 freeSpots = w * h, winner = 0, tie = False\<rparr>)"
proof (cases "wll = 0 \<or> w < 1 \<or> h < 1")
  case True
  then show ?thesis by (auto simp: NewTicTacToeBoard_def)
next
  case False
  then have "makeRows w h 0 (make h []) = Inr (replicate (nat h) (make w 0))"
    using makeRows_eq [of 0 h "make h []" w] by (simp add: make_def)
  with False show ?thesis by (simp add: NewTicTacToeBoard_def make_def)
qed

lemma wf_grid_replicate: "1 \<le> w \<Longrightarrow> 1 \<le> h \<Longrightarrow> wf_grid (replicate (nat h) (replicate (nat w) c))"
  unfolding wf_grid_def by (cases "nat h") auto

lemma NewTicTacToeBoard_wf:
  assumes "NewTicTacToeBoard wll w h = Inr tb"
  shows "wf_board tb \<and> winner tb = 0 \<and> \<not> tie tb"
proof -
  from assms have ok: "wll \<noteq> 0" "1 \<le> w" "1 \<le> h"
    by (auto simp: NewTicTacToeBoard_result split: if_splits)
  with assms have tb: "tb = \<lparr>winLineLength = wll, board = replicate (nat h) (replicate (nat w) 0),
                 freeSpots = w * h, winner = 0, tie = False\<rparr>"
    by (simp add: NewTicTacToeBoard_result)
  from ok have "0 \<le> w * h" by simp
  with wf_grid_replicate [OF ok(2,3)] tb show ?thesis by (simp add: wf_board_def)
qed

lemma PlaceMove_wf:
  assumes wf: "wf_board tb"
  shows "\<exists>tb'. PlaceMove tb x y p = Some (Inr tb') \<and> wf_board tb' \<and>
               (\<not> (winner tb \<noteq> 0 \<and> tie tb) \<longrightarrow> \<not> (winner tb' \<noteq> 0 \<and> tie tb'))"
proof (cases "accepted tb x y")
  case False
  with wf show ?thesis by (simp add: PlaceMove_rejected wf_board_def)
next
  case True
  from wf have g: "wf_grid (board tb)" and f: "0 \<le> freeSpots tb" by (simp_all add: wf_board_def)
  from True have ins: "inside (board tb) x y" and nt: "\<not> tie tb" and fs: "freeSpots tb \<noteq> 0"
    by (simp_all add: accepted_def IsGameOver_def)
  have "wf_board (outcome tb x y p)"
    using wf_grid_update [OF g ins] f fs by (simp add: wf_board_def outcome_fields)
  moreover have "\<not> (winner (outcome tb x y p) \<noteq> 0 \<and> tie (outcome tb x y p))"
    using outcome_tie [OF nt] by simp
  ultimately show ?thesis using PlaceMove_accepted [OF g True] by simp
qed

lemma PlaceMoves_gameover: "IsGameOver tb \<Longrightarrow> PlaceMoves tb moves = Some (Inr tb)"
  by (induction moves) (auto simp: PlaceMove_gameover)

lemma PlaceMoves_wf:
  assumes "wf_board tb" and "\<not> (winner tb \<noteq> 0 \<and> tie tb)"
  shows "\<exists>tb'. PlaceMoves tb moves = Some (Inr tb') \<and> wf_board tb' \<and> \<not> (winner tb' \<noteq> 0 \<and> tie tb')"
  using assms
proof (induction moves arbitrary: tb)
  case Nil
  then show ?case by simp
next
  case (Cons m moves)
  obtain x y p where m: "m = (x, y, p)" by (cases m)
  from PlaceMove_wf [OF Cons.prems(1), of x y p] Cons.prems(2) obtain tb1 where
    "PlaceMove tb x y p = Some (Inr tb1)" "wf_board tb1" "\<not> (winner tb1 \<noteq> 0 \<and> tie tb1)"
    by blast
  with Cons.IH [of tb1] m show ?case by simp
qed

subsection \<open>The free-spot counter counts the free cells\<close>

text \<open>
  On a board built by the constructor and changed only by placements of marks other
  than the empty rune, \<open>freeSpots\<close> is the number of cells that hold the empty rune.
\<close>

lemma count_list_fill:
  assumes "i < length xs" and "xs ! i = c" and "v \<noteq> c"
  shows "Suc (count_list (xs[i := v]) c) = count_list xs c"
proof -
  have "count_list xs c = count_list (take i xs @ xs ! i # drop (Suc i) xs) c"
    by (rule arg_cong [where f = "\<lambda>l. count_list l c", OF id_take_nth_drop [OF assms(1)]])
  also have "\<dots> = Suc (count_list (take i xs) c + count_list (drop (Suc i) xs) c)"
    using assms(2) by simp
  finally have a: "count_list xs c = Suc (count_list (take i xs) c + count_list (drop (Suc i) xs) c)" .
  have "count_list (xs[i := v]) c = count_list (take i xs @ v # drop (Suc i) xs) c"
    by (simp only: upd_conv_take_nth_drop [OF assms(1)])
  also have "\<dots> = count_list (take i xs) c + count_list (drop (Suc i) xs) c"
    using assms(3) by simp
  finally show ?thesis using a by simp
qed

lemma empty_cells_fill:
  assumes y: "j < length b" and x: "i < length (b ! j)" and e: "b ! j ! i = 0" and p: "p \<noteq> 0"
  shows "Suc (empty_cells (b[j := (b ! j)[i := p]])) = empty_cells b"
proof -
  let ?r = "b ! j" and ?r' = "(b ! j)[i := p]"
  let ?pre = "count_list (concat (take j b)) (0 :: rune)"
  let ?post = "count_list (concat (drop (Suc j) b)) (0 :: rune)"
  have "empty_cells b = count_list (concat (take j b @ ?r # drop (Suc j) b)) 0"
    unfolding empty_cells_def
    by (rule arg_cong [where f = "\<lambda>l. count_list (concat l) 0", OF id_take_nth_drop [OF y]])
  then have a: "empty_cells b = ?pre + count_list ?r 0 + ?post" by simp
  have "empty_cells (b[j := ?r']) = count_list (concat (take j b @ ?r' # drop (Suc j) b)) 0"
    unfolding empty_cells_def by (simp only: upd_conv_take_nth_drop [OF y])
  then have b: "empty_cells (b[j := ?r']) = ?pre + count_list ?r' 0 + ?post" by simp
  from count_list_fill [OF x e p] a b show ?thesis by simp
qed

lemma count_list_replicate_same: "count_list (replicate m c) c = m"
  by (induction m) simp_all

lemma empty_cells_replicate: "empty_cells (replicate n (replicate m 0)) = n * m"
  unfolding empty_cells_def by (induction n) (simp_all add: count_list_replicate_same)

lemma NewTicTacToeBoard_counted:
  assumes "NewTicTacToeBoard wll w h = Inr tb"
  shows "freeSpots tb = int (empty_cells (board tb))"
proof -
  from assms have ok: "wll \<noteq> 0" "1 \<le> w" "1 \<le> h"
    by (auto simp: NewTicTacToeBoard_result split: if_splits)
  with assms have "freeSpots tb = w * h" and "board tb = replicate (nat h) (replicate (nat w) 0)"
    by (auto simp: NewTicTacToeBoard_result)
  moreover from ok have "int (nat h * nat w) = w * h" by (simp add: mult.commute)
  ultimately show ?thesis by (simp add: empty_cells_replicate)
qed

lemma outcome_counted:
  assumes g: "wf_grid (board tb)" and a: "accepted tb x y" and p: "p \<noteq> 0"
    and c: "freeSpots tb = int (empty_cells (board tb))"
  shows "freeSpots (outcome tb x y p) = int (empty_cells (board (outcome tb x y p)))"
proof -
  from a have ins: "inside (board tb) x y" and e: "mark (board tb) x y = 0"
    by (simp_all add: accepted_def)
  from ins have y: "0 \<le> y" "y < height (board tb)" and x: "0 \<le> x" "x < width (board tb)"
    by (simp_all add: inside_def)
  from row_length [OF g y] x have xl: "nat x < length (board tb ! nat y)" by simp
  from y have yl: "nat y < length (board tb)" by (simp add: height_def)
  from e have "board tb ! nat y ! nat x = 0" by (simp add: mark_def)
  from empty_cells_fill [OF yl xl this p] c show ?thesis
    by (simp add: outcome_fields)
qed

lemma PlaceMove_counted:
  assumes wf: "wf_board tb" and c: "freeSpots tb = int (empty_cells (board tb))" and p: "p \<noteq> 0"
    and r: "PlaceMove tb x y p = Some (Inr tb')"
  shows "freeSpots tb' = int (empty_cells (board tb'))"
proof -
  from wf have g: "wf_grid (board tb)" by (simp add: wf_board_def)
  show ?thesis
  proof (cases "accepted tb x y")
    case True
    from PlaceMove_accepted [OF g True, of p] r have "tb' = outcome tb x y p" by simp
    with outcome_counted [OF g True p c] show ?thesis by simp
  next
    case False
    from PlaceMove_rejected [OF g False, of p] r c show ?thesis by simp
  qed
qed

lemma PlaceMoves_counted:
  assumes "wf_board tb" and "freeSpots tb = int (empty_cells (board tb))"
    and "\<forall>m \<in> set moves. snd (snd m) \<noteq> 0" and "PlaceMoves tb moves = Some (Inr tb')"
  shows "wf_board tb' \<and> freeSpots tb' = int (empty_cells (board tb'))"
  using assms
proof (induction moves arbitrary: tb)
  case Nil
  then show ?case by simp
next
  case (Cons m moves)
  obtain x y p where m: "m = (x, y, p)" by (cases m)
  with Cons.prems(3) have p: "p \<noteq> 0" by simp
  from PlaceMove_wf [OF Cons.prems(1), of x y p] obtain tb1 where
    s: "PlaceMove tb x y p = Some (Inr tb1)" and w1: "wf_board tb1" by blast
  from PlaceMove_counted [OF Cons.prems(1,2) p s] have c1: "freeSpots tb1 = int (empty_cells (board tb1))" .
  from Cons.prems(4) m s have "PlaceMoves tb1 moves = Some (Inr tb')" by simp
  with Cons.IH [OF w1 c1] Cons.prems(3) show ?case by simp
qed

subsection \<open>The concrete boards arise in play\<close>

text \<open>
  Each board used as an example below is built by the constructor and a few
  placements.
\<close>

lemma midgame_reached:
  "(case NewTicTacToeBoard 3 3 3 of
      Inl e \<Rightarrow> None
    | Inr tb \<Rightarrow> PlaceMoves tb [(0, 0, playerX), (0, 1, playerO), (1, 0, playerX), (1, 1, playerO)]) =
   Some (Inr midgame)"
  by code_simp

lemma won_reached: "PlaceMove midgame 2 0 playerX = Some (Inr won)"
  by code_simp

lemma lastcell_reached:
  "(case NewTicTacToeBoard 3 2 1 of Inl e \<Rightarrow> None | Inr tb \<Rightarrow> PlaceMoves tb [(0, 0, playerX)]) =
   Some (Inr lastcell)"
  by code_simp

lemma single_reached: "NewTicTacToeBoard 1 1 1 = Inr single"
  by code_simp

lemma drawgame_reached:
  "(case NewTicTacToeBoard 3 3 3 of
      Inl e \<Rightarrow> None
    | Inr tb \<Rightarrow>
        PlaceMoves tb [(1, 0, playerX), (0, 0, playerO), (0, 1, playerX), (1, 1, playerO),
                       (0, 2, playerX), (2, 1, playerO), (2, 2, playerX), (1, 2, playerO)]) =
   Some (Inr drawgame)"
  by code_simp

lemma lastwin_reached:
  "(case NewTicTacToeBoard 2 1 2 of Inl e \<Rightarrow> None | Inr tb \<Rightarrow> PlaceMoves tb [(0, 0, playerX)]) =
   Some (Inr lastwin)"
  by code_simp

section \<open>Lemmas about the duplicate-line counter\<close>

lemma map_of_increment:
  "map_of (increment counts line) l = (if l = line then Some (lookup counts line + 1) else map_of counts l)"
  by (simp add: increment_def update_conv')

lemma map_of_countLoop:
  "map_of (countLoop ls counts) l =
     (if l \<in> set ls then Some (lookup counts l + int (count_list ls l)) else map_of counts l)"
proof (induction ls arbitrary: counts)
  case Nil
  show ?case by simp
next
  case (Cons a ls)
  show ?case
    by (simp add: Cons.IH map_of_increment) (simp add: lookup_def map_of_increment)
qed

lemma lookup_countLoop: "lookup (countLoop ls counts) l = lookup counts l + int (count_list ls l)"
  by (simp add: lookup_def [of "countLoop ls counts"] map_of_countLoop) (simp add: lookup_def)

lemma distinct_increment: "distinct (map fst counts) \<Longrightarrow> distinct (map fst (increment counts line))"
  by (simp add: increment_def distinct_update)

lemma distinct_countLoop: "distinct (map fst counts) \<Longrightarrow> distinct (map fst (countLoop ls counts))"
  by (induction ls arbitrary: counts) (simp_all add: distinct_increment)

lemma printDups_iff:
  assumes "distinct (map fst counts)"
  shows "(n, l) \<in> set (printDups counts) \<longleftrightarrow> map_of counts l = Some n \<and> 1 < n"
  using assms by (auto simp: printDups_def)

lemma distinct_printDups:
  assumes "distinct (map fst counts)"
  shows "distinct (map snd (printDups counts))"
proof -
  have "map snd (printDups counts) = map fst (filter (\<lambda>(line, n). n > 1) counts)"
    by (simp add: printDups_def case_prod_unfold comp_def)
  with assms show ?thesis by (simp add: distinct_map_filter)
qed

lemma dropCR_line_text: "dropCR l = line_text l"
proof (cases l rule: rev_cases)
  case Nil
  then show ?thesis by (simp add: dropCR_def line_text_def)
next
  case (snoc r c)
  then show ?thesis by (simp add: dropCR_def line_text_def)
qed

lemma scan_counted_lines: "scan (Some c) = counted_lines c"
proof -
  have "(\<lambda>data :: string. int (length data) < maxScanTokenSize) = (\<lambda>l. int (length l) \<le> 65535)"
    by (auto simp: maxScanTokenSize_def)
  moreover have "dropCR = line_text" by (rule ext) (rule dropCR_line_text)
  ultimately show ?thesis by (simp only: scan_def counted_lines_def option.case)
qed

lemma counted_lines_prefix:
  assumes "delivered c = pre @ rest" and "\<forall>l \<in> set pre. length l \<le> 65535"
    and "rest = [] \<or> 65535 < length (hd rest)"
  shows "counted_lines c = map line_text pre"
proof -
  let ?fits = "\<lambda>l :: string. int (length l) \<le> 65535"
  have "takeWhile ?fits (pre @ rest) = pre @ takeWhile ?fits rest"
    by (rule takeWhile_append2) (use assms(2) in auto)
  moreover have "takeWhile ?fits rest = []"
    using assms(3) by (cases rest) auto
  ultimately show ?thesis by (simp add: counted_lines_def assms(1))
qed

lemma fileLoop_counts:
  "fst (fileLoop fs files counts stderr) =
     countLoop (concat (map (\<lambda>name. case fs name of Inl err \<Rightarrow> [] | Inr c \<Rightarrow> counted_lines c) files)) counts"
proof (induction files arbitrary: counts stderr)
  case Nil
  show ?case by simp
next
  case (Cons a files)
  have app: "countLoop (xs @ ys) c = countLoop ys (countLoop xs c)" for xs ys c
    by (induction xs arbitrary: c) simp_all
  show ?case
    by (cases "fs a") (simp_all add: osOpen_def countLines_def scan_counted_lines Cons.IH app, simp add: scan_def)
qed

lemma fileLoop_stderr:
  "snd (fileLoop fs files counts stderr) =
     stderr @ concat (map (\<lambda>name. case fs name of Inl e \<Rightarrow> [''dup: '' @ e @ [CHR 0x0A]] | Inr lines \<Rightarrow> []) files)"
proof (induction files arbitrary: counts stderr)
  case Nil
  show ?case by simp
next
  case (Cons a files)
  show ?case
    by (cases "fs a") (simp_all add: osOpen_def Cons.IH)
qed

lemma input_filter_opens:
  "concat (map (\<lambda>name. case fs name of Inl err \<Rightarrow> [] | Inr c \<Rightarrow> counted_lines c) (filter (opens fs) files)) =
   concat (map (\<lambda>name. case fs name of Inl err \<Rightarrow> [] | Inr c \<Rightarrow> counted_lines c) files)"
  by (induction files) (auto simp: opens_def split: sum.splits)

lemma longline_length: "length longline = 70000"
  by (simp add: longline_def)

lemma longline_neq_x: "longline \<noteq> ''x''"
proof
  assume "longline = ''x''"
  then have "length longline = length ''x''" by (rule arg_cong)
  then show False by (simp add: longline_length)
qed

lemma scan_longInput: "scan (Some longInput) = [''x'']"
  by (simp add: scan_def longInput_def longline_length maxScanTokenSize_def dropCR_def)

section \<open>Properties of the board\<close>

text \<open>
  Claim C1. On every well-formed board, a placement of a player's mark (a rune other
  than the empty one) that the guard of \<open>PlaceMove\<close> accepts returns a board with the
  win-line length it had, and in that board the winner is the player if and only if, for one of the four direction
  vectors of \<open>DirOffsets\<close>, the placed cell plus the player's consecutive cells
  strictly in that direction plus those strictly in the opposite direction number at
  least \<open>winLineLength\<close>; the four vectors are written out in the statement. The loop over the directions returns at the first
  direction of \<open>DirOffsets\<close> that qualifies: it gives the same result whatever
  directions are put after that one, even a direction whose scan would not return.
\<close>

theorem PlaceMove_winner_iff:
  assumes wf: "wf_board tb" and acc: "rejects tb x y = Inr False" and pl: "player \<noteq> 0"
  shows "\<exists>tb'. PlaceMove tb x y player = Some (Inr tb') \<and>
           winLineLength tb' = winLineLength tb \<and>
           (winner tb' = player \<longleftrightarrow>
              (\<exists>d \<in> {(0, 1), (1, 1), (1, 0), (1, - 1)}.
                 winLineLength tb' \<le> total_run (board tb') player x y d)) \<and>
           (\<forall>pre d post rest.
              DirOffsets = pre @ d # post \<and>
              (\<forall>e \<in> set pre. \<not> winLineLength tb' \<le> total_run (board tb') player x y e) \<and>
              winLineLength tb' \<le> total_run (board tb') player x y d \<longrightarrow>
              dirLoop tb' player x y (pre @ d # rest) = Some (Inr (tb'\<lparr>winner := player\<rparr>)))"
proof -
  from wf have g: "wf_grid (board tb)" by (simp add: wf_board_def)
  from acc have a: "accepted tb x y" by (simp add: rejects_wf [OF g])
  then have w0: "winner tb = 0" by (simp add: accepted_def IsGameOver_def)
  let ?tb' = "outcome tb x y player"
  have r: "PlaceMove tb x y player = Some (Inr ?tb')" by (rule PlaceMove_accepted [OF g a])
  from PlaceMove_wf [OF wf, of x y player] r have g': "wf_grid (board ?tb')"
    by (simp add: wf_board_def)
  have "winner ?tb' = player \<longleftrightarrow>
          (\<exists>d \<in> set DirOffsets. winLineLength ?tb' \<le> total_run (board ?tb') player x y d)"
    using outcome_winner [OF w0, of x y player] pl by (auto simp: qualifies_def)
  then have "winner ?tb' = player \<longleftrightarrow>
          (\<exists>d \<in> {(0, 1), (1, 1), (1, 0), (1, - 1)}.
             winLineLength ?tb' \<le> total_run (board ?tb') player x y d)"
    unfolding set_DirOffsets .
  moreover have "dirLoop ?tb' player x y (pre @ d # rest) = Some (Inr (?tb'\<lparr>winner := player\<rparr>))"
    if s: "DirOffsets = pre @ d # post"
      and n: "\<forall>e \<in> set pre. \<not> winLineLength ?tb' \<le> total_run (board ?tb') player x y e"
      and q: "winLineLength ?tb' \<le> total_run (board ?tb') player x y d" for pre d post rest
  proof (rule dirLoop_first [OF g'])
    have "set pre \<subseteq> set DirOffsets" unfolding s by auto
    with n DirOffsets_nonzero
    show "\<forall>e \<in> set pre. (fst e \<noteq> 0 \<or> snd e \<noteq> 0) \<and> \<not> qualifies ?tb' player x y e"
      by (auto simp: qualifies_def)
    have "d \<in> set DirOffsets" unfolding s by simp
    then show "fst d \<noteq> 0 \<or> snd d \<noteq> 0" by (rule DirOffsets_nonzero)
    from q show "qualifies ?tb' player x y d" by (simp add: qualifies_def)
  qed
  moreover have "winLineLength ?tb' = winLineLength tb" by (simp add: outcome_fields)
  ultimately show ?thesis using r by blast
qed

text \<open>
  The winning move of the 3 by 3 game: X completes the bottom row, the horizontal run
  is 3, and the theorem gives the winner.
\<close>

theorem PlaceMove_winner_iff_witness:
  "wf_board midgame \<and> rejects midgame 2 0 = Inr False \<and> playerX \<noteq> 0 \<and>
   PlaceMove midgame 2 0 playerX =
     Some (Inr \<lparr>winLineLength = 3, board = [[playerX, playerX, playerX], [playerO, playerO, 0], [0, 0, 0]],
                freeSpots = 4, winner = playerX, tie = False\<rparr>) \<and>
   total_run [[playerX, playerX, playerX], [playerO, playerO, 0], [0, 0, 0]] playerX 2 0 (1, 0) = 3"
proof -
  let ?b = "[[playerX, playerX, playerX], [playerO, playerO, 0], [0, 0, 0]]"
  have h1: "wf_board midgame" by code_simp
  have h2: "rejects midgame 2 0 = Inr False" by code_simp
  have h3: "playerX \<noteq> 0" by code_simp
  have run: "total_run ?b playerX 2 0 (1, 0) = 3" by code_simp
  have grid: "PlaceMove midgame 2 0 playerX = Some (Inr tb') \<Longrightarrow>
    winLineLength tb' = 3 \<and> board tb' = ?b \<and> freeSpots tb' = 4 \<and> tie tb' = False" for tb'
  proof -
    assume "PlaceMove midgame 2 0 playerX = Some (Inr tb')"
    moreover have "PlaceMove midgame 2 0 playerX =
      Some (Inr \<lparr>winLineLength = 3, board = ?b, freeSpots = 4, winner = playerX, tie = False\<rparr>)"
      by code_simp
    ultimately show ?thesis by auto
  qed
  from PlaceMove_winner_iff [OF h1 h2 h3] obtain tb' where
    r: "PlaceMove midgame 2 0 playerX = Some (Inr tb')" and
    w: "winner tb' = playerX \<longleftrightarrow>
          (\<exists>d \<in> {(0, 1), (1, 1), (1, 0), (1, - 1)}.
             winLineLength tb' \<le> total_run (board tb') playerX 2 0 d)"
    by blast
  from grid [OF r] have f: "winLineLength tb' = 3" "board tb' = ?b" "freeSpots tb' = 4" "tie tb' = False"
    by simp_all
  have "winLineLength tb' \<le> total_run (board tb') playerX 2 0 (1, 0)"
    using f run by simp
  then have "winner tb' = playerX" using w by blast
  with f have "tb' = \<lparr>winLineLength = 3, board = ?b, freeSpots = 4, winner = playerX, tie = False\<rparr>"
    by simp
  with r h1 h2 h3 run show ?thesis by simp
qed

text \<open>
  Claim C2. On every well-formed board, a call of \<open>PlaceMove\<close> made when the game is
  over, or with a coordinate outside the grid, or on a cell that already holds a mark,
  or when the free-spot counter is zero, returns normally with the board it was given:
  grid, free-spot counter, winner and tie flag (and the win-line length) are unchanged.
\<close>

theorem PlaceMove_rejected_unchanged:
  assumes "wf_board tb"
    and "IsGameOver tb \<or> \<not> inside (board tb) x y \<or> mark (board tb) x y \<noteq> 0 \<or> freeSpots tb = 0"
  shows "PlaceMove tb x y player = Some (Inr tb)"
proof -
  from assms(1) have g: "wf_grid (board tb)" by (simp add: wf_board_def)
  from assms(2) have "\<not> accepted tb x y" by (auto simp: accepted_def)
  with g show ?thesis by (rule PlaceMove_rejected)
qed

text \<open>
  An occupied cell and an out-of-bounds coordinate in the running game, and any move
  once X has won.
\<close>

theorem PlaceMove_rejected_unchanged_witness:
  "wf_board midgame \<and> mark (board midgame) 0 0 \<noteq> 0 \<and> PlaceMove midgame 0 0 playerO = Some (Inr midgame) \<and>
   \<not> inside (board midgame) 3 (- 1) \<and> PlaceMove midgame 3 (- 1) playerO = Some (Inr midgame) \<and>
   wf_board won \<and> IsGameOver won \<and> PlaceMove won 2 2 playerO = Some (Inr won)"
proof -
  have h1: "wf_board midgame" by code_simp
  have h2: "mark (board midgame) 0 0 \<noteq> 0" by code_simp
  have h3: "\<not> inside (board midgame) 3 (- 1)" by code_simp
  have h4: "wf_board won" by code_simp
  have h5: "IsGameOver won" by code_simp
  from h2 h3 h5 show ?thesis
    using PlaceMove_rejected_unchanged [of midgame 0 0 playerO]
      PlaceMove_rejected_unchanged [of midgame 3 "- 1" playerO]
      PlaceMove_rejected_unchanged [of won 2 2 playerO] h1 h4
    by simp
qed

text \<open>
  Claim C3, as stated, fails: \<open>GetMark\<close> answers the empty rune for a coordinate
  outside the grid, so \<open>IsSpotEmpty\<close> is true there. On the 3 by 3 board the
  coordinate (5, 5) is out of bounds and \<open>IsSpotEmpty\<close> returns true.
\<close>

theorem IsSpotEmpty_out_of_bounds_counterexample:
  "wf_board midgame \<and> \<not> inside (board midgame) 5 5 \<and> IsSpotEmpty midgame 5 5 = Inr True"
  by code_simp

text \<open>
  Claim C3, amended. On every well-formed board and for all integer coordinates,
  \<open>IsSpotEmpty\<close> returns normally, and it returns true if and only if the coordinate
  is outside the grid or the cell there holds no mark; in particular it returns true
  for every out-of-bounds coordinate.
\<close>

theorem IsSpotEmpty_iff:
  assumes "wf_board tb"
  shows "IsSpotEmpty tb x y = Inr (\<not> inside (board tb) x y \<or> mark (board tb) x y = 0)"
proof -
  from assms have g: "wf_grid (board tb)" by (simp add: wf_board_def)
  show ?thesis
    by (cases "inside (board tb) x y")
      (simp_all add: IsSpotEmpty_def GetMark_def InBounds_wf [OF g] cell_wf [OF g])
qed

text \<open>
  Two coordinates outside the grid, a free cell and an occupied cell of the running game.
\<close>

theorem IsSpotEmpty_iff_witness:
  "wf_board midgame \<and> IsSpotEmpty midgame 5 5 = Inr True \<and> IsSpotEmpty midgame (- 1) 0 = Inr True \<and>
   IsSpotEmpty midgame 2 0 = Inr True \<and> IsSpotEmpty midgame 0 0 = Inr False"
proof -
  have h: "wf_board midgame" by code_simp
  have "\<not> inside (board midgame) 5 5" "\<not> inside (board midgame) (- 1) 0"
    "inside (board midgame) 2 0" "mark (board midgame) 2 0 = 0"
    "inside (board midgame) 0 0" "mark (board midgame) 0 0 \<noteq> 0"
    by code_simp+
  with h show ?thesis
    using IsSpotEmpty_iff [OF h, of 5 5] IsSpotEmpty_iff [OF h, of "- 1" 0]
      IsSpotEmpty_iff [OF h, of 2 0] IsSpotEmpty_iff [OF h, of 0 0]
    by simp
qed

text \<open>
  Claim C4. The constructor panics for a zero win-line length only, although its
  message reads "winLineLength must be > 0": with the win-line length \<open>-1\<close> and a
  3 by 3 grid it returns a board. (For a win-line length of at least 1 and dimensions
  of at least 1 it returns the empty board with \<open>width * height\<close> free spots, as
  \<open>NewTicTacToeBoard_result\<close> shows.)
\<close>

theorem NewTicTacToeBoard_negative_winLineLength:
  "NewTicTacToeBoard (- 1) 3 3 =
     Inr \<lparr>winLineLength = - 1, board = [[0, 0, 0], [0, 0, 0], [0, 0, 0]],
          freeSpots = 9, winner = 0, tie = False\<rparr>"
  by code_simp

text \<open>
  Claim C5. On every well-formed board \<open>PlaceMove\<close> returns a board whose free-spot
  counter is one less than before when the guard accepts the placement, and the same
  as before when the guard rejects it.
\<close>

theorem freeSpots_step:
  assumes "wf_board tb"
  shows "\<exists>tb'. PlaceMove tb x y player = Some (Inr tb') \<and>
           freeSpots tb' = (if rejects tb x y = Inr False then freeSpots tb - 1 else freeSpots tb)"
proof -
  from assms have g: "wf_grid (board tb)" by (simp add: wf_board_def)
  show ?thesis
  proof (cases "accepted tb x y")
    case True
    with PlaceMove_accepted [OF g True, of player] show ?thesis
      by (simp add: rejects_wf [OF g] outcome_fields)
  next
    case False
    with PlaceMove_rejected [OF g False, of player] show ?thesis
      by (simp add: rejects_wf [OF g])
  qed
qed

text \<open>
  An accepted and a rejected placement in the running game, which has 5 free spots.
\<close>

theorem freeSpots_step_witness:
  "wf_board midgame \<and>
   (\<exists>tb'. PlaceMove midgame 2 0 playerX = Some (Inr tb') \<and> freeSpots tb' = 4) \<and>
   (\<exists>tb'. PlaceMove midgame 0 0 playerX = Some (Inr tb') \<and> freeSpots tb' = 5)"
proof -
  have h: "wf_board midgame" by code_simp
  have "rejects midgame 2 0 = Inr False" "rejects midgame 0 0 = Inr True" "freeSpots midgame = 5"
    by code_simp+
  with h show ?thesis
    using freeSpots_step [OF h, of 2 0 playerX] freeSpots_step [OF h, of 0 0 playerX]
    by simp
qed

text \<open>
  Claim C6. In every state reached from a freshly constructed board by a sequence of
  \<open>PlaceMove\<close> calls, the winner and the tie flag are not both set; and once the
  winner or the tie flag is set, every further sequence of \<open>PlaceMove\<close> calls
  returns that same state, so neither changes in any later state.
\<close>

theorem gameover_exclusive_final:
  assumes "NewTicTacToeBoard wll w h = Inr tb0" and "PlaceMoves tb0 moves = Some (Inr tb)"
  shows "\<not> (winner tb \<noteq> 0 \<and> tie tb) \<and>
         (winner tb \<noteq> 0 \<or> tie tb \<longrightarrow> PlaceMoves tb later = Some (Inr tb))"
proof -
  from NewTicTacToeBoard_wf [OF assms(1)] have "wf_board tb0" and "\<not> (winner tb0 \<noteq> 0 \<and> tie tb0)"
    by simp_all
  from PlaceMoves_wf [OF this, of moves] assms(2) have "\<not> (winner tb \<noteq> 0 \<and> tie tb)" by auto
  moreover have "PlaceMoves tb later = Some (Inr tb)" if "winner tb \<noteq> 0 \<or> tie tb"
    using that by (intro PlaceMoves_gameover) (auto simp: IsGameOver_def)
  ultimately show ?thesis by blast
qed

text \<open>
  The 1 by 1 game with win-line length 1: the first placement wins, and later calls
  change nothing.
\<close>

theorem gameover_exclusive_final_witness:
  "NewTicTacToeBoard 1 1 1 = Inr single \<and>
   PlaceMoves single [(0, 0, playerX)] =
     Some (Inr \<lparr>winLineLength = 1, board = [[playerX]], freeSpots = 0, winner = playerX, tie = False\<rparr>) \<and>
   PlaceMoves \<lparr>winLineLength = 1, board = [[playerX]], freeSpots = 0, winner = playerX, tie = False\<rparr>
       [(0, 0, playerO), (5, 5, playerX)] =
     Some (Inr \<lparr>winLineLength = 1, board = [[playerX]], freeSpots = 0, winner = playerX, tie = False\<rparr>)"
proof -
  let ?w = "\<lparr>winLineLength = 1, board = [[playerX]], freeSpots = 0, winner = playerX, tie = False\<rparr>"
  have h1: "NewTicTacToeBoard 1 1 1 = Inr single" by code_simp
  have h2: "PlaceMoves single [(0, 0, playerX)] = Some (Inr ?w)" by code_simp
  have "winner ?w \<noteq> 0" by code_simp
  with gameover_exclusive_final [OF h1 h2, of "[(0, 0, playerO), (5, 5, playerX)]"] h1 h2
  show ?thesis by simp
qed

text \<open>
  Claim C7. On every well-formed board whose free-spot counter is the number of its
  free cells, a placement of a player's mark returns a board, with the win-line length
  it had, in which: if the guard accepted the placement, the filled cell was the last
  free one and none of the four directions (0, 1), (1, 1), (1, 0), (1, -1) has a run
  of at least \<open>winLineLength\<close> through the placed cell, then the tie flag is set and
  the winner is unset; in every other situation the tie flag is what it was before
  the call.
\<close>

theorem PlaceMove_tie:
  assumes wf: "wf_board tb" and cnt: "freeSpots tb = int (empty_cells (board tb))" and pl: "player \<noteq> 0"
  shows "\<exists>tb'. PlaceMove tb x y player = Some (Inr tb') \<and>
           winLineLength tb' = winLineLength tb \<and>
           (if rejects tb x y = Inr False \<and> empty_cells (board tb) = 1 \<and>
               \<not> (\<exists>d \<in> {(0, 1), (1, 1), (1, 0), (1, - 1)}.
                      winLineLength tb' \<le> total_run (board tb') player x y d)
            then tie tb' \<and> winner tb' = 0
            else tie tb' = tie tb)"
proof -
  from wf have g: "wf_grid (board tb)" by (simp add: wf_board_def)
  show ?thesis
  proof (cases "accepted tb x y")
    case False
    with PlaceMove_rejected [OF g False, of player] show ?thesis
      by (simp add: rejects_wf [OF g])
  next
    case True
    then have w0: "winner tb = 0" and nt: "\<not> tie tb" by (simp_all add: accepted_def IsGameOver_def)
    let ?tb' = "outcome tb x y player"
    have r: "PlaceMove tb x y player = Some (Inr ?tb')" by (rule PlaceMove_accepted [OF g True])
    have "winner ?tb' = 0 \<longleftrightarrow>
          \<not> (\<exists>d \<in> set DirOffsets. winLineLength ?tb' \<le> total_run (board ?tb') player x y d)"
      using outcome_winner [OF w0, of x y player] pl by (auto simp: qualifies_def)
    then have w: "winner ?tb' = 0 \<longleftrightarrow>
          \<not> (\<exists>d \<in> {(0, 1), (1, 1), (1, 0), (1, - 1)}.
                 winLineLength ?tb' \<le> total_run (board ?tb') player x y d)"
      unfolding set_DirOffsets .
    have t: "tie ?tb' \<longleftrightarrow> winner ?tb' = 0 \<and> empty_cells (board tb) = 1"
      using outcome_tie [OF nt, of x y player] cnt by simp
    from True have a: "rejects tb x y = Inr False" by (simp add: rejects_wf [OF g])
    have l: "winLineLength ?tb' = winLineLength tb" by (simp add: outcome_fields)
    show ?thesis
    proof (cases "winner ?tb' = 0 \<and> empty_cells (board tb) = 1")
      case True
      with t w a l r show ?thesis by (intro exI [of _ ?tb']) simp
    next
      case False
      with t have "\<not> tie ?tb'" by simp
      with False w a l r nt show ?thesis by (intro exI [of _ ?tb']) auto
    qed
  qed
qed

text \<open>
  Three last placements. X fills the last cell of the 3 by 3 game, where the longest
  run through the cell is 2: a tie. O fills the last cell of the 2 by 1 board, where
  three in a row are needed: a tie. X fills the last cell of the one-column board where
  two in a row suffice: the vertical run is 2, X wins and the tie flag stays unset.
\<close>

theorem PlaceMove_tie_witness:
  "wf_board drawgame \<and> freeSpots drawgame = int (empty_cells (board drawgame)) \<and> playerX \<noteq> 0 \<and>
   rejects drawgame 2 0 = Inr False \<and> empty_cells (board drawgame) = 1 \<and>
   total_run [[playerO, playerX, playerX], [playerX, playerO, playerO], [playerX, playerO, playerX]]
     playerX 2 0 (1, 0) = 2 \<and>
   PlaceMove drawgame 2 0 playerX =
     Some (Inr \<lparr>winLineLength = 3,
                board = [[playerO, playerX, playerX], [playerX, playerO, playerO], [playerX, playerO, playerX]],
                freeSpots = 0, winner = 0, tie = True\<rparr>) \<and>
   wf_board lastcell \<and> freeSpots lastcell = int (empty_cells (board lastcell)) \<and> playerO \<noteq> 0 \<and>
   rejects lastcell 1 0 = Inr False \<and> empty_cells (board lastcell) = 1 \<and>
   PlaceMove lastcell 1 0 playerO =
     Some (Inr \<lparr>winLineLength = 3, board = [[playerX, playerO]], freeSpots = 0, winner = 0, tie = True\<rparr>) \<and>
   wf_board lastwin \<and> freeSpots lastwin = int (empty_cells (board lastwin)) \<and>
   rejects lastwin 0 1 = Inr False \<and> empty_cells (board lastwin) = 1 \<and>
   total_run [[playerX], [playerX]] playerX 0 1 (0, 1) = 2 \<and>
   PlaceMove lastwin 0 1 playerX =
     Some (Inr \<lparr>winLineLength = 2, board = [[playerX], [playerX]], freeSpots = 0, winner = playerX,
                tie = False\<rparr>)"
proof -
  have px: "playerX \<noteq> 0" and po: "playerO \<noteq> 0" by code_simp+
  have draw: "wf_board drawgame \<and> freeSpots drawgame = int (empty_cells (board drawgame)) \<and>
     rejects drawgame 2 0 = Inr False \<and> empty_cells (board drawgame) = 1 \<and>
     total_run [[playerO, playerX, playerX], [playerX, playerO, playerO], [playerX, playerO, playerX]]
       playerX 2 0 (1, 0) = 2 \<and>
     PlaceMove drawgame 2 0 playerX =
       Some (Inr \<lparr>winLineLength = 3,
                  board = [[playerO, playerX, playerX], [playerX, playerO, playerO], [playerX, playerO, playerX]],
                  freeSpots = 0, winner = 0, tie = True\<rparr>)"
  proof -
    let ?b = "[[playerO, playerX, playerX], [playerX, playerO, playerO], [playerX, playerO, playerX]]"
    have h1: "wf_board drawgame" by code_simp
    have h2: "freeSpots drawgame = int (empty_cells (board drawgame))" by code_simp
    have a: "rejects drawgame 2 0 = Inr False" and e: "empty_cells (board drawgame) = 1" by code_simp+
    have ev: "PlaceMove drawgame 2 0 playerX =
        Some (Inr \<lparr>winLineLength = 3, board = ?b, freeSpots = 0, winner = 0, tie = True\<rparr>)"
      by code_simp
    have r1: "total_run ?b playerX 2 0 (0, 1) = 1" and r2: "total_run ?b playerX 2 0 (1, 1) = 1"
      and r3: "total_run ?b playerX 2 0 (1, 0) = 2" and r4: "total_run ?b playerX 2 0 (1, - 1) = 1"
      by code_simp+
    from PlaceMove_tie [OF h1 h2 px, of 2 0] obtain tb' where
      r: "PlaceMove drawgame 2 0 playerX = Some (Inr tb')" and
      c: "if rejects drawgame 2 0 = Inr False \<and> empty_cells (board drawgame) = 1 \<and>
               \<not> (\<exists>d \<in> {(0, 1), (1, 1), (1, 0), (1, - 1)}.
                      winLineLength tb' \<le> total_run (board tb') playerX 2 0 d)
            then tie tb' \<and> winner tb' = 0 else tie tb' = tie drawgame"
      by blast
    from r ev have f: "winLineLength tb' = 3" "board tb' = ?b" "freeSpots tb' = 0" by auto
    with c a e r1 r2 r3 r4 have "tie tb' \<and> winner tb' = 0" by simp
    with f have "tb' = \<lparr>winLineLength = 3, board = ?b, freeSpots = 0, winner = 0, tie = True\<rparr>" by simp
    with r h1 h2 a e r3 show ?thesis by simp
  qed
  have last: "wf_board lastcell \<and> freeSpots lastcell = int (empty_cells (board lastcell)) \<and>
     rejects lastcell 1 0 = Inr False \<and> empty_cells (board lastcell) = 1 \<and>
     PlaceMove lastcell 1 0 playerO =
       Some (Inr \<lparr>winLineLength = 3, board = [[playerX, playerO]], freeSpots = 0, winner = 0, tie = True\<rparr>)"
  proof -
    let ?b = "[[playerX, playerO]]"
    have h1: "wf_board lastcell" by code_simp
    have h2: "freeSpots lastcell = int (empty_cells (board lastcell))" by code_simp
    have a: "rejects lastcell 1 0 = Inr False" and e: "empty_cells (board lastcell) = 1" by code_simp+
    have ev: "PlaceMove lastcell 1 0 playerO =
        Some (Inr \<lparr>winLineLength = 3, board = ?b, freeSpots = 0, winner = 0, tie = True\<rparr>)"
      by code_simp
    have r1: "total_run ?b playerO 1 0 (0, 1) = 1" and r2: "total_run ?b playerO 1 0 (1, 1) = 1"
      and r3: "total_run ?b playerO 1 0 (1, 0) = 1" and r4: "total_run ?b playerO 1 0 (1, - 1) = 1"
      by code_simp+
    from PlaceMove_tie [OF h1 h2 po, of 1 0] obtain tb' where
      r: "PlaceMove lastcell 1 0 playerO = Some (Inr tb')" and
      c: "if rejects lastcell 1 0 = Inr False \<and> empty_cells (board lastcell) = 1 \<and>
               \<not> (\<exists>d \<in> {(0, 1), (1, 1), (1, 0), (1, - 1)}.
                      winLineLength tb' \<le> total_run (board tb') playerO 1 0 d)
            then tie tb' \<and> winner tb' = 0 else tie tb' = tie lastcell"
      by blast
    from r ev have f: "winLineLength tb' = 3" "board tb' = ?b" "freeSpots tb' = 0" by auto
    with c a e r1 r2 r3 r4 have "tie tb' \<and> winner tb' = 0" by simp
    with f have "tb' = \<lparr>winLineLength = 3, board = ?b, freeSpots = 0, winner = 0, tie = True\<rparr>" by simp
    with r h1 h2 a e show ?thesis by simp
  qed
  have win: "wf_board lastwin \<and> freeSpots lastwin = int (empty_cells (board lastwin)) \<and>
     rejects lastwin 0 1 = Inr False \<and> empty_cells (board lastwin) = 1 \<and>
     total_run [[playerX], [playerX]] playerX 0 1 (0, 1) = 2 \<and>
     PlaceMove lastwin 0 1 playerX =
       Some (Inr \<lparr>winLineLength = 2, board = [[playerX], [playerX]], freeSpots = 0, winner = playerX,
                  tie = False\<rparr>)"
  proof -
    let ?b = "[[playerX], [playerX]]"
    have h1: "wf_board lastwin" by code_simp
    have h2: "freeSpots lastwin = int (empty_cells (board lastwin))" by code_simp
    have a: "rejects lastwin 0 1 = Inr False" and e: "empty_cells (board lastwin) = 1" by code_simp+
    have t0: "tie lastwin = False" by code_simp
    have ev: "PlaceMove lastwin 0 1 playerX =
        Some (Inr \<lparr>winLineLength = 2, board = ?b, freeSpots = 0, winner = playerX, tie = False\<rparr>)"
      by code_simp
    have r3: "total_run ?b playerX 0 1 (0, 1) = 2" by code_simp
    from PlaceMove_tie [OF h1 h2 px, of 0 1] obtain tb' where
      r: "PlaceMove lastwin 0 1 playerX = Some (Inr tb')" and
      c: "if rejects lastwin 0 1 = Inr False \<and> empty_cells (board lastwin) = 1 \<and>
               \<not> (\<exists>d \<in> {(0, 1), (1, 1), (1, 0), (1, - 1)}.
                      winLineLength tb' \<le> total_run (board tb') playerX 0 1 d)
            then tie tb' \<and> winner tb' = 0 else tie tb' = tie lastwin"
      by blast
    from r ev have f: "winLineLength tb' = 2" "board tb' = ?b" "freeSpots tb' = 0" "winner tb' = playerX"
      by auto
    with c r3 t0 have "tie tb' = False" by simp
    with f have "tb' = \<lparr>winLineLength = 2, board = ?b, freeSpots = 0, winner = playerX, tie = False\<rparr>"
      by simp
    with r h1 h2 a e r3 show ?thesis by simp
  qed
  from draw last win px po show ?thesis by simp
qed

text \<open>
  Claim C9. On every well-formed board and for all integer coordinates, \<open>GetMark\<close>,
  \<open>PlaceMove\<close> and the scans of \<open>getLineLength\<close> in the four directions and their
  opposites return a value: none of them ends in the index-out-of-range panic that an
  unchecked read or write of the grid would raise (and none of them runs forever).
\<close>

theorem no_index_panic:
  assumes "wf_board tb"
  shows "(\<exists>m. GetMark tb x y = Inr m) \<and>
         (\<exists>tb'. PlaceMove tb x y player = Some (Inr tb')) \<and>
         (\<forall>d \<in> set DirOffsets.
            (\<exists>n. getLineLength tb player x y (fst d) (snd d) = Some (Inr n)) \<and>
            (\<exists>n. getLineLength tb player x y (- fst d) (- snd d) = Some (Inr n)))"
proof -
  from assms have g: "wf_grid (board tb)" by (simp add: wf_board_def)
  have "\<exists>m. GetMark tb x y = Inr m"
    by (cases "inside (board tb) x y") (simp_all add: GetMark_def InBounds_wf [OF g] cell_wf [OF g])
  moreover from PlaceMove_wf [OF assms, of x y player]
  have "\<exists>tb'. PlaceMove tb x y player = Some (Inr tb')" by blast
  moreover have "(\<exists>n. getLineLength tb player x y (fst d) (snd d) = Some (Inr n)) \<and>
            (\<exists>n. getLineLength tb player x y (- fst d) (- snd d) = Some (Inr n))"
    if "d \<in> set DirOffsets" for d
  proof -
    from DirOffsets_nonzero [OF that] have nz: "fst d \<noteq> 0 \<or> snd d \<noteq> 0"
      and nz': "- fst d \<noteq> 0 \<or> - snd d \<noteq> 0" by simp_all
    show ?thesis
      by (simp add: getLineLength_wf [OF g nz] getLineLength_wf [OF g nz'])
  qed
  ultimately show ?thesis by blast
qed

text \<open>
  The extreme 64-bit coordinates, and a diagonal scan from the corner (2, 0).
\<close>

theorem no_index_panic_witness:
  "wf_board midgame \<and>
   (\<exists>m. GetMark midgame (- 9223372036854775808) 9223372036854775807 = Inr m) \<and>
   (\<exists>tb'. PlaceMove midgame (- 9223372036854775808) 9223372036854775807 playerX = Some (Inr tb')) \<and>
   (\<exists>n. getLineLength midgame playerX 2 0 1 (- 1) = Some (Inr n)) \<and>
   (\<exists>n. getLineLength midgame playerX 2 0 (- 1) 1 = Some (Inr n))"
proof -
  have h: "wf_board midgame" by code_simp
  have d: "(1, - 1) \<in> set DirOffsets" by (simp add: DirOffsets_def)
  from no_index_panic [OF h, of "- 9223372036854775808" 9223372036854775807 playerX]
  have a: "\<exists>m. GetMark midgame (- 9223372036854775808) 9223372036854775807 = Inr m"
    and b: "\<exists>tb'. PlaceMove midgame (- 9223372036854775808) 9223372036854775807 playerX = Some (Inr tb')"
    by blast+
  from no_index_panic [OF h, of 2 0 playerX]
  have "\<forall>d \<in> set DirOffsets.
            (\<exists>n. getLineLength midgame playerX 2 0 (fst d) (snd d) = Some (Inr n)) \<and>
            (\<exists>n. getLineLength midgame playerX 2 0 (- fst d) (- snd d) = Some (Inr n))"
    by (elim conjE)
  from bspec [OF this d]
  have "(\<exists>n. getLineLength midgame playerX 2 0 1 (- 1) = Some (Inr n)) \<and>
        (\<exists>n. getLineLength midgame playerX 2 0 (- 1) 1 = Some (Inr n))"
    by simp
  with h a b show ?thesis by blast
qed

section \<open>Properties of the duplicate-line counter\<close>

text \<open>
  Claim C8, as stated, fails: \<open>countLines\<close> counts only the lines that the scanner
  yields, and the scanner stops at the first line that does not fit its 64 KiB
  buffer. On the input x, a line of 70000 bytes, x, x the line x occurs three times,
  the count recorded for it is 1, and the program prints nothing.
\<close>

theorem dup_long_line_counterexample:
  "count_list (delivered longInput) ''x'' = 3 \<and> lost longInput = [] \<and>
   lookup (countLines (Some longInput) []) ''x'' = 1 \<and>
   fst (dup disk longInput []) = []"
proof -
  have "count_list (delivered longInput) ''x'' = 3"
    using longline_neq_x by (simp add: longInput_def)
  moreover have c: "countLines (Some longInput) [] = [(''x'', 1)]"
    by (simp add: countLines_def scan_longInput increment_def lookup_def)
  moreover from c have "fst (dup disk longInput []) = []"
    by (simp add: dup_def printDups_def)
  ultimately show ?thesis by (simp add: lookup_def longInput_def)
qed

text \<open>
  Claim C8, amended. The count that \<open>countLines\<close> adds for a line is the number of
  its occurrences among the lines of the file that were delivered and come before the
  first line longer than 65535 bytes (all delivered lines when none is that long),
  each taken without its line terminator; for the nil file it adds nothing. The
  program prints a record for a line, with the count \<open>n\<close>, if and only if \<open>n\<close> is the
  number of occurrences of the line among those lines of its whole input and \<open>n\<close> is
  greater than 1. No line is printed twice.
\<close>

theorem dup_counts_lines_scanned:
  "(\<forall>pre rest.
      delivered c = pre @ rest \<and> (\<forall>l \<in> set pre. length l \<le> 65535) \<and>
      (rest = [] \<or> 65535 < length (hd rest)) \<longrightarrow>
      lookup (countLines (Some c) counts) line =
        lookup counts line + int (count_list (map line_text pre) line)) \<and>
   lookup (countLines None counts) line = lookup counts line \<and>
   ((n, line) \<in> set (fst (dup fs stdin files)) \<longleftrightarrow>
      n = int (count_list (input_lines fs stdin files) line) \<and> 1 < n) \<and>
   distinct (map snd (fst (dup fs stdin files)))"
proof -
  have one: "lookup (countLines (Some c) counts) line =
        lookup counts line + int (count_list (map line_text pre) line)"
    if "delivered c = pre @ rest" and "\<forall>l \<in> set pre. length l \<le> 65535"
      and "rest = [] \<or> 65535 < length (hd rest)" for pre rest
    using counted_lines_prefix [OF that]
    by (simp add: countLines_def scan_counted_lines lookup_countLoop)
  have nil: "lookup (countLines None counts) line = lookup counts line"
    by (simp add: countLines_def scan_def)
  define ls where "ls = input_lines fs stdin files"
  have c: "(if files = [] then (countLines (Some stdin) [], []) else fileLoop fs files [] []) =
        (countLoop ls [], snd (if files = [] then (countLines (Some stdin) [], []) else fileLoop fs files [] []))"
    using fileLoop_counts [of fs files "[]" "[]"]
    by (simp add: ls_def input_lines_def countLines_def scan_counted_lines prod_eq_iff)
  have out: "fst (dup fs stdin files) = printDups (countLoop ls [])"
    unfolding dup_def by (subst c) simp
  have d: "distinct (map fst (countLoop ls []))" by (rule distinct_countLoop) simp
  have "(n, line) \<in> set (printDups (countLoop ls [])) \<longleftrightarrow> n = int (count_list ls line) \<and> 1 < n"
    by (auto simp: printDups_iff [OF d] map_of_countLoop lookup_def split: if_splits)
  with out d have "((n, line) \<in> set (fst (dup fs stdin files)) \<longleftrightarrow>
      n = int (count_list (input_lines fs stdin files) line) \<and> 1 < n) \<and>
   distinct (map snd (fst (dup fs stdin files)))"
    by (simp add: distinct_printDups ls_def)
  with one nil show ?thesis by blast
qed

text \<open>
  The input with the long line and the input whose reading fails: x is counted once.
  The input with both terminators: x is counted twice and printed. The file
  \<open>a.txt\<close> holds x, y, x: the line x is printed with the count 2, the line y is not
  printed.
\<close>

theorem dup_counts_lines_scanned_witness:
  "lookup (countLines (Some longInput) []) ''x'' = 1 \<and>
   lookup (countLines (Some brokenInput) []) ''x'' = 1 \<and>
   lookup (countLines (Some crlfInput) []) ''x'' = 2 \<and>
   (2, ''x'') \<in> set (fst (dup disk noInput [''a.txt''])) \<and>
   (1, ''y'') \<notin> set (fst (dup disk noInput [''a.txt''])) \<and>
   (2, ''x'') \<in> set (fst (dup disk crlfInput []))"
proof -
  have l0: "lookup [] ''x'' = 0" by code_simp
  have a: "lookup (countLines (Some longInput) []) ''x'' = 1"
  proof -
    have "delivered longInput = [''x''] @ [longline, ''x'', ''x'']" by (simp add: longInput_def)
    moreover have "\<forall>l \<in> set [''x'']. length l \<le> 65535" by simp
    moreover have "[longline, ''x'', ''x''] = [] \<or> 65535 < length (hd [longline, ''x'', ''x''])"
      by (simp add: longline_length)
    moreover have "count_list (map line_text [''x'']) ''x'' = 1" by code_simp
    ultimately show ?thesis
      using dup_counts_lines_scanned [where c = longInput and counts = "[]" and line = "''x''"] l0
      by (metis add_0 of_nat_1)
  qed
  have b: "lookup (countLines (Some brokenInput) []) ''x'' = 1"
  proof -
    have "delivered brokenInput = [''x'', ''y''] @ []" by (simp add: brokenInput_def)
    moreover have "\<forall>l \<in> set [''x'', ''y'']. length l \<le> 65535" by simp
    moreover have "count_list (map line_text [''x'', ''y'']) ''x'' = 1" by code_simp
    ultimately show ?thesis
      using dup_counts_lines_scanned [where c = brokenInput and counts = "[]" and line = "''x''"] l0
      by (metis add_0 of_nat_1)
  qed
  have c: "lookup (countLines (Some crlfInput) []) ''x'' = 2"
  proof -
    have "delivered crlfInput = [''x'' @ [CHR 0x0D], ''x'', ''y''] @ []" by (simp add: crlfInput_def)
    moreover have "\<forall>l \<in> set [''x'' @ [CHR 0x0D], ''x'', ''y'']. length l \<le> 65535" by simp
    moreover have "count_list (map line_text [''x'' @ [CHR 0x0D], ''x'', ''y'']) ''x'' = 2" by code_simp
    ultimately show ?thesis
      using dup_counts_lines_scanned [where c = crlfInput and counts = "[]" and line = "''x''"] l0
      by (metis add_0 of_nat_numeral)
  qed
  have i1: "input_lines disk noInput [''a.txt''] = [''x'', ''y'', ''x'']" by code_simp
  have i2: "input_lines disk crlfInput [] = [''x'', ''x'', ''y'']" by code_simp
  have c1: "count_list [''x'', ''y'', ''x''] ''x'' = 2" by code_simp
  have c2: "count_list [''x'', ''y'', ''x''] ''y'' = 1" by code_simp
  have c3: "count_list [''x'', ''x'', ''y''] ''x'' = 2" by code_simp
  from dup_counts_lines_scanned [where line = "''x''" and n = 2 and fs = disk and stdin = noInput
      and files = "[''a.txt'']"]
  have d: "(2, ''x'') \<in> set (fst (dup disk noInput [''a.txt'']))"
    by (simp add: i1 c1)
  from dup_counts_lines_scanned [where line = "''y''" and n = 1 and fs = disk and stdin = noInput
      and files = "[''a.txt'']"]
  have e: "(1, ''y'') \<notin> set (fst (dup disk noInput [''a.txt'']))"
    by (simp add: i1 c2)
  from dup_counts_lines_scanned [where line = "''x''" and n = 2 and fs = disk and stdin = crlfInput
      and files = "[]"]
  have f: "(2, ''x'') \<in> set (fst (dup disk crlfInput []))"
    by (simp add: i2 c3)
  from a b c d e f show ?thesis by simp
qed

text \<open>
  Claim C10. The loop over the named files computes the same counts as it does on the
  list without the names that fail to open, it writes one message to standard error
  for every name that fails, in order, and it goes on to the files after a failure.
  When at least one named file opens, the output of the whole program is that of the
  program run on the list without the failing names. (When no named file opens the
  shorter list is empty, and the program run on it reads standard input instead.)
\<close>

theorem failed_open_skipped:
  "fst (fileLoop fs files counts stderr) = fst (fileLoop fs (filter (opens fs) files) counts stderr) \<and>
   snd (fileLoop fs files counts stderr) =
     stderr @ concat (map (\<lambda>name. case fs name of Inl e \<Rightarrow> [''dup: '' @ e @ [CHR 0x0A]] | Inr lines \<Rightarrow> []) files) \<and>
   (filter (opens fs) files \<noteq> [] \<longrightarrow>
      fst (dup fs stdin files) = fst (dup fs stdin (filter (opens fs) files)))"
proof -
  have a: "fst (fileLoop fs files c e) = fst (fileLoop fs (filter (opens fs) files) c e')" for c e e'
    by (simp add: fileLoop_counts input_filter_opens)
  have "fst (dup fs stdin files) = fst (dup fs stdin (filter (opens fs) files))"
    if "filter (opens fs) files \<noteq> []"
  proof -
    from that have "files \<noteq> []" by auto
    with that a [of "[]" "[]" "[]"] show ?thesis
      by (simp add: dup_def case_prod_unfold)
  qed
  with a [of counts stderr stderr] fileLoop_stderr [of fs files counts stderr] show ?thesis by blast
qed

text \<open>
  A name that does not open between two files that do.
\<close>

theorem failed_open_skipped_witness:
  "\<not> opens disk ''gone'' \<and>
   dup disk noInput [''a.txt'', ''gone'', ''b.txt''] =
     ([(2, ''x''), (2, ''y'')], [''dup: open gone: no such file or directory'' @ [CHR 0x0A]]) \<and>
   dup disk noInput [''a.txt'', ''b.txt''] = ([(2, ''x''), (2, ''y'')], [])"
proof -
  let ?files = "[''a.txt'', ''gone'', ''b.txt'']"
  have n: "\<not> opens disk ''gone''" by code_simp
  have f: "filter (opens disk) ?files = [''a.txt'', ''b.txt'']" by code_simp
  have ok: "dup disk noInput [''a.txt'', ''b.txt''] = ([(2, ''x''), (2, ''y'')], [])" by code_simp
  have err: "snd (dup disk noInput ?files) = [''dup: open gone: no such file or directory'' @ [CHR 0x0A]]"
    by code_simp
  from failed_open_skipped [of disk ?files "[]" "[]" noInput] f
  have "fst (dup disk noInput ?files) = fst (dup disk noInput [''a.txt'', ''b.txt''])" by simp
  with ok have "fst (dup disk noInput ?files) = [(2, ''x''), (2, ''y'')]" by simp
  with err have "dup disk noInput ?files =
     ([(2, ''x''), (2, ''y'')], [''dup: open gone: no such file or directory'' @ [CHR 0x0A]])"
    by (simp add: prod_eq_iff)
  with n ok show ?thesis by simp
qed

end
